theory Spec2Isabelle
  imports Complex_Main "HOL-Library.Word"
begin

section \<open>The WER scorer of server1.js\<close>

subsection \<open>Strings, lowercasing and splitting\<close>

text \<open>
  Texts are lists of characters, and a character is a code unit below 256, read as
  Latin-1. On these \<open>toLowerCase\<close> folds the letters \<open>A\<close> to \<open>Z\<close> and the letters
  \<open>U+00C0\<close> to \<open>U+00DE\<close> without the multiplication sign \<open>U+00D7\<close>, each to the
  character 32 places further; every other character is left as it is. Code
  units from 256 on are outside the model.
\<close>

definition toLowerCase_char :: "char \<Rightarrow> char" where
  "toLowerCase_char c =
     (case map_of
        (zip (''ABCDEFGHIJKLMNOPQRSTUVWXYZ'' @
              [CHR 0xC0, CHR 0xC1, CHR 0xC2, CHR 0xC3, CHR 0xC4, CHR 0xC5, CHR 0xC6, CHR 0xC7,
               CHR 0xC8, CHR 0xC9, CHR 0xCA, CHR 0xCB, CHR 0xCC, CHR 0xCD, CHR 0xCE, CHR 0xCF,
               CHR 0xD0, CHR 0xD1, CHR 0xD2, CHR 0xD3, CHR 0xD4, CHR 0xD5, CHR 0xD6,
               CHR 0xD8, CHR 0xD9, CHR 0xDA, CHR 0xDB, CHR 0xDC, CHR 0xDD, CHR 0xDE])
             (''abcdefghijklmnopqrstuvwxyz'' @
              [CHR 0xE0, CHR 0xE1, CHR 0xE2, CHR 0xE3, CHR 0xE4, CHR 0xE5, CHR 0xE6, CHR 0xE7,
               CHR 0xE8, CHR 0xE9, CHR 0xEA, CHR 0xEB, CHR 0xEC, CHR 0xED, CHR 0xEE, CHR 0xEF,
               CHR 0xF0, CHR 0xF1, CHR 0xF2, CHR 0xF3, CHR 0xF4, CHR 0xF5, CHR 0xF6,
               CHR 0xF8, CHR 0xF9, CHR 0xFA, CHR 0xFB, CHR 0xFC, CHR 0xFD, CHR 0xFE])) c of
        Some l \<Rightarrow> l
      | None \<Rightarrow> c)"

definition toLowerCase :: "string \<Rightarrow> string" where
  "toLowerCase s = map toLowerCase_char s"

text \<open>
  \<open>s.split(" ")\<close>: the substrings of \<open>s\<close> between the occurrences of the single
  space character, in order. The empty string gives one empty substring; two
  adjacent spaces give an empty substring between them.
\<close>

fun split_space :: "string \<Rightarrow> string list" where
  "split_space [] = [[]]"
| "split_space (c # cs) =
     (if c = CHR '' '' then [] # split_space cs
      else (c # hd (split_space cs)) # tl (split_space cs))"

text \<open>\<open>ts.join(" ")\<close>, the inverse direction, used to characterise \<open>split_space\<close>.\<close>

fun join_space :: "string list \<Rightarrow> string" where
  "join_space [] = []"
| "join_space [t] = t"
| "join_space (t # u # ts) = t @ CHR '' '' # join_space (u # ts)"

subsection \<open>JavaScript numbers, as far as the scorer needs them\<close>

text \<open>
  The scorer divides two non-negative integers. \<open>Finite q\<close> records a finite
  result by the exact rational \<open>q\<close> that it is computed from; the number that
  JavaScript holds for it is the nearest double, \<open>double q\<close> below. Division by zero
  gives \<open>Infinity\<close> for a positive dividend and \<open>NaN\<close> for \<open>0 / 0\<close>.
\<close>

datatype jsnum = Finite rat | Infinity | NaN

definition js_div :: "nat \<Rightarrow> nat \<Rightarrow> jsnum" where
  "js_div a b =
     (if b = 0 then (if a = 0 then NaN else Infinity)
      else Finite (of_nat a / of_nat b))"

text \<open>
  Doubles are the rationals \<open>m * 2 ^ e\<close> with a significand \<open>m\<close> of 53 bits.
  \<open>ilog2 x\<close> is the exponent \<open>e\<close> with \<open>2 ^ e \<le> x < 2 ^ (e + 1)\<close>, found by doubling
  and halving.
\<close>

function ilog2 :: "rat \<Rightarrow> int" where
  "ilog2 x =
     (if x \<le> 0 then 0
      else if x < 1 then ilog2 (2 * x) - 1
      else if 2 \<le> x then ilog2 (x / 2) + 1
      else 0)"
  by pat_completeness auto
termination
proof (relation "measure (\<lambda>x. if x < 1 then nat \<lceil>1 / x\<rceil> + 2 else nat \<lfloor>x\<rfloor>)")
  show "wf (measure (\<lambda>x :: rat. if x < 1 then nat \<lceil>1 / x\<rceil> + 2 else nat \<lfloor>x\<rfloor>))"
    by simp
next
  fix x :: rat
  assume a: "\<not> x \<le> 0" "x < 1"
  show "(2 * x, x) \<in> measure (\<lambda>x. if x < 1 then nat \<lceil>1 / x\<rceil> + 2 else nat \<lfloor>x\<rfloor>)"
  proof (cases "2 * x < 1")
    case True
    with a have y: "2 < 1 / x"
      by (simp add: field_simps)
    then have "2 \<le> \<lceil>1 / x\<rceil>"
      by (simp add: le_ceiling_iff)
    then have c: "(2 :: rat) \<le> of_int \<lceil>1 / x\<rceil>"
      by (metis of_int_le_iff of_int_numeral)
    have "1 / x \<le> of_int \<lceil>1 / x\<rceil>"
      by (rule le_of_int_ceiling)
    moreover have "1 / (2 * x) = (1 / x) / 2"
      by simp
    ultimately have "1 / (2 * x) \<le> of_int \<lceil>1 / x\<rceil> - 1"
      using c by linarith
    then have "1 / (2 * x) \<le> of_int (\<lceil>1 / x\<rceil> - 1)"
      by simp
    then have "\<lceil>1 / (2 * x)\<rceil> \<le> \<lceil>1 / x\<rceil> - 1"
      by (simp only: ceiling_le_iff)
    moreover have "0 < \<lceil>1 / (2 * x)\<rceil>"
      using a by (simp add: ceiling_less_iff)
    ultimately show ?thesis
      using True a by simp
  next
    case False
    then have "2 * x < 2" "1 \<le> 2 * x"
      using a by simp_all
    then have "\<lfloor>2 * x\<rfloor> = 1"
      by (intro floor_unique) simp_all
    with False a show ?thesis
      by simp
  qed
next
  fix x :: rat
  assume a: "\<not> x \<le> 0" "\<not> x < 1" "2 \<le> x"
  have "\<lfloor>x / 2\<rfloor> < \<lfloor>x\<rfloor>"
  proof -
    have "2 \<le> \<lfloor>x\<rfloor>" using a by (simp add: le_floor_iff)
    then have f: "(2 :: rat) \<le> of_int \<lfloor>x\<rfloor>"
      by (metis of_int_le_iff of_int_numeral)
    have "x < of_int \<lfloor>x\<rfloor> + 1"
      using floor_le_iff [of x "\<lfloor>x\<rfloor>"] by simp
    with f have "x / 2 < of_int \<lfloor>x\<rfloor>"
      by linarith
    then show ?thesis
      by (simp add: floor_less_iff)
  qed
  moreover have "0 \<le> \<lfloor>x / 2\<rfloor>"
    using a by simp
  ultimately show "(x / 2, x) \<in> measure (\<lambda>x. if x < 1 then nat \<lceil>1 / x\<rceil> + 2 else nat \<lfloor>x\<rfloor>)"
    using a by simp
qed

declare ilog2.simps [simp del]

text \<open>The nearest integer, the even one of two that are equally near.\<close>

definition round_half_even :: "rat \<Rightarrow> int" where
  "round_half_even y =
     (let f = \<lfloor>y\<rfloor>; r = y - of_int f
      in if r < 1 / 2 then f
         else if 1 / 2 < r then f + 1
         else if even f then f else f + 1)"

text \<open>
  The double nearest to a rational, ties to the even significand. The range of the
  exponent is not limited: the numbers of the scorer are quotients of token
  counts, their differences from 1 and the hundredfold of those, far from the
  overflow threshold \<open>2 ^ 1024\<close> and from the subnormal range below \<open>2 ^ - 1022\<close> for
  every text that a JavaScript string can hold.
\<close>

definition double :: "rat \<Rightarrow> rat" where
  "double x =
     (if x = 0 then 0
      else let ulp = 2 powi (ilog2 \<bar>x\<bar> - 52);
               m = round_half_even (\<bar>x\<bar> / ulp)
           in sgn x * of_int m * ulp)"

text \<open>\<open>a - b\<close> and \<open>a * b\<close> on doubles: the exact result, rounded to a double.\<close>

definition js_sub :: "rat \<Rightarrow> rat \<Rightarrow> rat" where
  "js_sub a b = double (a - b)"

definition js_mul :: "rat \<Rightarrow> rat \<Rightarrow> rat" where
  "js_mul a b = double (a * b)"

subsection \<open>calculateWER\<close>

type_synonym matrix = "nat list list"

text \<open>\<open>dp[i][j] = v\<close>\<close>

definition dp_set :: "matrix \<Rightarrow> nat \<Rightarrow> nat \<Rightarrow> nat \<Rightarrow> matrix" where
  "dp_set dp i j v = dp[i := (dp ! i)[j := v]]"

text \<open>\<open>Array(m + 1).fill(null).map(() => Array(n + 1).fill(0))\<close>\<close>

definition create_matrix :: "nat \<Rightarrow> nat \<Rightarrow> matrix" where
  "create_matrix m n = replicate (m + 1) (replicate (n + 1) 0)"

text \<open>\<open>for (let i = 0; i <= ref.length; i++) dp[i][0] = i;\<close>\<close>

definition init_first_column :: "nat \<Rightarrow> matrix \<Rightarrow> matrix" where
  "init_first_column m dp = fold (\<lambda>i dp. dp_set dp i 0 i) [0..<m + 1] dp"

text \<open>\<open>for (let j = 0; j <= hyp.length; j++) dp[0][j] = j;\<close>\<close>

definition init_first_row :: "nat \<Rightarrow> matrix \<Rightarrow> matrix" where
  "init_first_row n dp = fold (\<lambda>j dp. dp_set dp 0 j j) [0..<n + 1] dp"

text \<open>The body of the inner loop, at row \<open>i\<close> and column \<open>j\<close>.\<close>

definition fill_cell :: "'a list \<Rightarrow> 'a list \<Rightarrow> nat \<Rightarrow> nat \<Rightarrow> matrix \<Rightarrow> matrix" where
  "fill_cell ref hyp i j dp =
     (if ref ! (i - 1) = hyp ! (j - 1) then dp_set dp i j (dp ! (i - 1) ! (j - 1))
      else dp_set dp i j
             (min (dp ! (i - 1) ! (j - 1) + 1)
                  (min (dp ! i ! (j - 1) + 1) (dp ! (i - 1) ! j + 1))))"

text \<open>\<open>for (let j = 1; j <= hyp.length; j++) ...\<close>\<close>

definition fill_row :: "'a list \<Rightarrow> 'a list \<Rightarrow> nat \<Rightarrow> matrix \<Rightarrow> matrix" where
  "fill_row ref hyp i dp = fold (fill_cell ref hyp i) [1..<length hyp + 1] dp"

text \<open>\<open>for (let i = 1; i <= ref.length; i++) ...\<close>\<close>

definition fill_matrix :: "'a list \<Rightarrow> 'a list \<Rightarrow> matrix \<Rightarrow> matrix" where
  "fill_matrix ref hyp dp = fold (fill_row ref hyp) [1..<length ref + 1] dp"

text \<open>The matrix as it stands when \<open>calculateWER\<close> reads \<open>dp[ref.length][hyp.length]\<close>.\<close>

definition wer_matrix :: "'a list \<Rightarrow> 'a list \<Rightarrow> matrix" where
  "wer_matrix ref hyp =
     fill_matrix ref hyp
       (init_first_row (length hyp)
          (init_first_column (length ref)
             (create_matrix (length ref) (length hyp))))"

text \<open>
  \<open>calculateWER\<close> tokenises both texts with the same expression,
  \<open>text.toLowerCase().split(" ")\<close>. It is named here so that statements can refer to it.
\<close>

definition wer_tokens :: "string \<Rightarrow> string list" where
  "wer_tokens text = split_space (toLowerCase text)"

definition calculateWER :: "string \<Rightarrow> string \<Rightarrow> jsnum" where
  "calculateWER reference hypothesis =
     (let ref = wer_tokens reference;
          hyp = wer_tokens hypothesis;
          dp = wer_matrix ref hyp
      in js_div (dp ! length ref ! length hyp) (length ref))"

subsection \<open>The recurrence of the specification\<close>

text \<open>
  \<open>d[i][0] = i\<close>, \<open>d[0][j] = j\<close>, \<open>d[i][j] = d[i-1][j-1]\<close> if \<open>ref[i-1] = hyp[j-1]\<close>,
  else \<open>1 + min(d[i-1][j-1], d[i][j-1], d[i-1][j])\<close>.
\<close>

fun spec_d :: "'a list \<Rightarrow> 'a list \<Rightarrow> nat \<Rightarrow> nat \<Rightarrow> nat" where
  "spec_d ref hyp i 0 = i"
| "spec_d ref hyp 0 j = j"
| "spec_d ref hyp (Suc i) (Suc j) =
     (if ref ! i = hyp ! j then spec_d ref hyp i j
      else 1 + min (spec_d ref hyp i j)
                   (min (spec_d ref hyp (Suc i) j) (spec_d ref hyp i (Suc j))))"

text \<open>
  The edit scripts that the recurrence ranges over: \<open>edits xs ys k\<close> holds when \<open>xs\<close>
  is turned into \<open>ys\<close> by an alignment that keeps equal words and spends \<open>k\<close>
  substitutions, insertions and deletions of single words, each of cost one.
\<close>

inductive edits :: "'a list \<Rightarrow> 'a list \<Rightarrow> nat \<Rightarrow> bool" where
  nil: "edits [] [] 0"
| keep: "edits xs ys k \<Longrightarrow> edits (xs @ [x]) (ys @ [x]) k"
| substitution: "edits xs ys k \<Longrightarrow> edits (xs @ [x]) (ys @ [y]) (Suc k)"
| insertion: "edits xs ys k \<Longrightarrow> edits xs (ys @ [y]) (Suc k)"
| deletion: "edits xs ys k \<Longrightarrow> edits (xs @ [x]) ys (Suc k)"

subsection \<open>The tokenisation and the domain error of the specification\<close>

text \<open>
  White space and line terminators among the code units below 256: tab, line
  feed, vertical tab, form feed, carriage return, space and the no-break space
  \<open>U+00A0\<close>.
\<close>

definition isWhiteSpace :: "char \<Rightarrow> bool" where
  "isWhiteSpace c \<longleftrightarrow>
     c \<in> set [CHR 0x09, CHR 0x0A, CHR 0x0B, CHR 0x0C, CHR 0x0D, CHR '' '', CHR 0xA0]"

text \<open>
  ``Split both texts on whitespace'': the words of a text are its maximal runs of
  characters that are not white space; \<open>w\<close> is the word being read.
\<close>

fun spec_words :: "string \<Rightarrow> string \<Rightarrow> string list" where
  "spec_words w [] = (if w = [] then [] else [w])"
| "spec_words w (c # cs) =
     (if isWhiteSpace c then (if w = [] then [] else [w]) @ spec_words [] cs
      else spec_words (w @ [c]) cs)"

definition spec_tokenize :: "string \<Rightarrow> string list" where
  "spec_tokenize text = map toLowerCase (spec_words [] text)"

datatype scorer_error = ScorerDomainError

text \<open>
  \<open>wordErrorRate\<close> as the specification words it: \<open>d[|ref|][|hyp|] / |ref|\<close>, and a
  defined error when the reference has no words.
\<close>

definition spec_wordErrorRate :: "string \<Rightarrow> string \<Rightarrow> scorer_error + rat" where
  "spec_wordErrorRate reference hypothesis =
     (let ref = spec_tokenize reference; hyp = spec_tokenize hypothesis
      in if length ref = 0 then Inl ScorerDomainError
         else Inr (of_nat (spec_d ref hyp (length ref) (length hyp)) / of_nat (length ref)))"

subsection \<open>calculateAccuracy\<close>

text \<open>The decimal digits of a natural number.\<close>

fun dec :: "nat \<Rightarrow> string" where
  "dec n = (if n < 10 then [''0123456789'' ! n]
            else dec (n div 10) @ [''0123456789'' ! (n mod 10)])"

declare dec.simps [simp del]

text \<open>
  \<open>x.toFixed(2)\<close> on a finite number, given by its exact value: the sign is split
  off, \<open>n\<close> is the integer for which \<open>n / 100\<close> is closest to the magnitude (the
  larger one on a tie), and the digits of \<open>n\<close>, padded to at least three, get a
  point before the last two.
  (The switch to exponent notation at magnitudes from \<open>10^21\<close> on is not modelled:
  the accuracy reaches it only with more than \<open>10^19\<close> hypothesis words.)
\<close>

definition toFixed_n :: "rat \<Rightarrow> nat" where
  "toFixed_n x = nat \<lfloor>\<bar>x\<bar> * 100 + 1 / 2\<rfloor>"

definition toFixed2 :: "rat \<Rightarrow> string" where
  "toFixed2 x =
     (let s = (if x < 0 then ''-'' else []);
          m = dec (toFixed_n x);
          m = (if length m \<le> 2 then replicate (3 - length m) CHR ''0'' @ m else m);
          k = length m
      in s @ take (k - 2) m @ ''.'' @ drop (k - 2) m)"

text \<open>
  \<open>((1 - wer) * 100).toFixed(2)\<close>, in the arithmetic of doubles: \<open>wer\<close> is the
  double of the quotient, and the difference and the product are rounded in turn.
  With \<open>wer\<close> infinite the product is \<open>-Infinity\<close>, with \<open>wer\<close> not a number it is
  \<open>NaN\<close>, and \<open>toFixed\<close> prints either by name.
\<close>

definition calculateAccuracy :: "string \<Rightarrow> string \<Rightarrow> string" where
  "calculateAccuracy reference hypothesis =
     (case calculateWER reference hypothesis of
        Finite wer \<Rightarrow> toFixed2 (js_mul (js_sub 1 (double wer)) 100)
      | Infinity \<Rightarrow> ''-Infinity''
      | NaN \<Rightarrow> ''NaN'')"




section \<open>The streaming pipeline, transcribeAudio\<close>

subsection \<open>Source, engine and results\<close>

type_synonym byte = "8 word"

type_synonym buffer = "byte list"

text \<open>A thrown JavaScript error; \<open>message\<close> is \<open>err.message\<close>.\<close>

datatype error = Error (message: string)

text \<open>
  \<open>model.stt(buffer)\<close> returns the text or throws. The engine is a parameter of
  the model, and a call has no effect on later calls.
\<close>

type_synonym engine = "buffer \<Rightarrow> error + string"

text \<open>
  What the ffmpeg pipe does to its listeners: the \<open>data\<close> events in delivery order,
  then \<open>end\<close> or \<open>error\<close>. The model starts where the pipe is set up: the audio
  file is taken to exist (index.js returns at once when it does not, and in
  server1.js \<open>fs.statSync\<close> throws).
\<close>

datatype source_end = End | SourceError error

record source =
  data :: "buffer list"
  ending :: source_end

text \<open>
  How the promise returned by \<open>transcribeAudio\<close> ends: resolved with the final
  text, or rejected with the error rethrown from the \<open>catch\<close> block. \<open>Uncaught\<close>
  is the third way out: an error thrown inside the \<open>end\<close> listener leaves the
  listener, so that \<open>resolve()\<close> is not reached and the \<open>catch\<close> block never sees
  the error; the code of \<open>transcribeAudio\<close> does nothing more in such a run.
\<close>

datatype 'a outcome = Resolved 'a | Rejected error | Uncaught error

text \<open>
  The engine calls of a run, in order, each tagged with its call site: the slice
  of the \<open>while\<close> loop, the remaining buffer in the \<open>end\<close> listener, and the complete
  buffer after the promise. The list is a record of the run kept by the model.
\<close>

datatype stt_call = UnitCall buffer | RemainderCall buffer | CompleteCall buffer

text \<open>\<open>text.trim()\<close>, which is truthy when it is not the empty string.\<close>

definition trim :: "string \<Rightarrow> string" where
  "trim text = rev (dropWhile isWhiteSpace (rev (dropWhile isWhiteSpace text)))"

text \<open>
  The variables that both files share: the chunks pushed so far and the
  accumulation buffer, together with the record of the engine calls.
\<close>

record pipeline =
  chunks :: "buffer list"
  currentBuffer :: buffer
  stt_calls :: "stt_call list"

subsection \<open>index.js\<close>

datatype index_line =
    Starting
  | IntermediateResult string
  | ErrorProcessingChunk string
  | FinalChunk string
  | CompleteTranscription string
  | ErrorDuringTranscription error

record index_state = pipeline +
  console :: "index_line list"

definition index_CHUNK_SIZE :: nat where
  "index_CHUNK_SIZE = 16000"

text \<open>The \<open>while\<close> loop of the \<open>data\<close> listener, lines 65 to 78.\<close>

function index_while :: "engine \<Rightarrow> index_state \<Rightarrow> index_state" where
  "index_while stt s =
     (if length (currentBuffer s) \<ge> index_CHUNK_SIZE then
        let chunkToProcess = take index_CHUNK_SIZE (currentBuffer s);
            s = s\<lparr>currentBuffer := drop index_CHUNK_SIZE (currentBuffer s),
                  stt_calls := stt_calls s @ [UnitCall chunkToProcess]\<rparr>
        in index_while stt
             (case stt chunkToProcess of
                Inr intermediateText \<Rightarrow>
                  if trim intermediateText \<noteq> []
                  then s\<lparr>console := console s @ [IntermediateResult intermediateText]\<rparr>
                  else s
              | Inl err \<Rightarrow> s\<lparr>console := console s @ [ErrorProcessingChunk (message err)]\<rparr>)
      else s)"
  by pat_completeness auto
termination
  by (relation "measure (\<lambda>(stt, s). length (currentBuffer s))")
     (auto simp: index_CHUNK_SIZE_def split: sum.splits)

declare index_while.simps [simp del]

text \<open>The \<open>data\<close> listener, lines 60 to 81.\<close>

definition index_on_data :: "engine \<Rightarrow> buffer \<Rightarrow> index_state \<Rightarrow> index_state" where
  "index_on_data stt chunk s =
     (let s = s\<lparr>currentBuffer := currentBuffer s @ chunk\<rparr>;
          s = index_while stt s
      in s\<lparr>chunks := chunks s @ [chunk]\<rparr>)"

text \<open>
  The \<open>end\<close> listener, lines 51 to 58. The call of the engine is not inside a
  \<open>try\<close>: the first component is the error that leaves the listener, if any.
\<close>

definition index_on_end :: "engine \<Rightarrow> index_state \<Rightarrow> error option \<times> index_state" where
  "index_on_end stt s =
     (if length (currentBuffer s) > 0 then
        let s' = s\<lparr>stt_calls := stt_calls s @ [RemainderCall (currentBuffer s)]\<rparr>
        in (case stt (currentBuffer s) of
              Inl err \<Rightarrow> (Some err, s')
            | Inr finalText \<Rightarrow> (None, s'\<lparr>console := console s' @ [FinalChunk finalText]\<rparr>))
      else (None, s))"

text \<open>Lines 84 to 93: the complete buffer, and the \<open>catch\<close> block around the run.\<close>

definition index_complete :: "engine \<Rightarrow> index_state \<Rightarrow> string outcome \<times> index_state" where
  "index_complete stt s =
     (let completeBuffer = concat (chunks s);
          s = s\<lparr>stt_calls := stt_calls s @ [CompleteCall completeBuffer]\<rparr>
      in case stt completeBuffer of
           Inr finalResult \<Rightarrow>
             (Resolved finalResult,
              s\<lparr>console := console s @ [CompleteTranscription finalResult]\<rparr>)
         | Inl error \<Rightarrow>
             (Rejected error, s\<lparr>console := console s @ [ErrorDuringTranscription error]\<rparr>))"

definition index_initial :: index_state where
  "index_initial = \<lparr>chunks = [], currentBuffer = [], stt_calls = [], console = [Starting]\<rparr>"

definition index_transcribeAudio :: "engine \<Rightarrow> source \<Rightarrow> string outcome \<times> index_state" where
  "index_transcribeAudio stt src =
     (let s = fold (index_on_data stt) (data src) index_initial
      in case ending src of
           SourceError err \<Rightarrow>
             (Rejected err, s\<lparr>console := console s @ [ErrorDuringTranscription err]\<rparr>)
         | End \<Rightarrow>
             (case index_on_end stt s of
                (Some err, s) \<Rightarrow> (Uncaught err, s)
              | (None, s) \<Rightarrow> index_complete stt s))"

subsection \<open>server1.js\<close>

text \<open>
  The lines written to the transcription file and to the performance log. File
  names, the input file size and the processing time are not modelled.
\<close>

datatype server1_line =
    StartingLines
  | ChunkLine nat string
  | ErrorProcessingChunkLine string
  | FinalChunkLine string
  | FFmpegErrorLine error
  | CompleteTranscriptionHeader
  | CompleteTranscriptionText string
  | AccuracyMetrics string string string
  | TranscriptionCompleted
  | ErrorLine string

datatype performance_line = TotalChunks nat | WordAccuracy string

record server1_state = pipeline +
  chunkCount :: nat
  transcriptionFile :: "server1_line list"
  performanceLog :: "performance_line list"

definition server1_CHUNK_SIZE :: nat where
  "server1_CHUNK_SIZE = 32000"

text \<open>The \<open>while\<close> loop of the \<open>data\<close> listener, lines 120 to 137.\<close>

function server1_while :: "engine \<Rightarrow> server1_state \<Rightarrow> server1_state" where
  "server1_while stt s =
     (if length (currentBuffer s) \<ge> server1_CHUNK_SIZE then
        let chunkToProcess = take server1_CHUNK_SIZE (currentBuffer s);
            s = s\<lparr>currentBuffer := drop server1_CHUNK_SIZE (currentBuffer s),
                  stt_calls := stt_calls s @ [UnitCall chunkToProcess]\<rparr>
        in server1_while stt
             (case stt chunkToProcess of
                Inr intermediateText \<Rightarrow>
                  if trim intermediateText \<noteq> []
                  then s\<lparr>transcriptionFile :=
                           transcriptionFile s @ [ChunkLine (chunkCount s + 1) intermediateText],
                         chunkCount := chunkCount s + 1\<rparr>
                  else s
              | Inl err \<Rightarrow>
                  s\<lparr>transcriptionFile :=
                      transcriptionFile s @ [ErrorProcessingChunkLine (message err)]\<rparr>)
      else s)"
  by pat_completeness auto
termination
  by (relation "measure (\<lambda>(stt, s). length (currentBuffer s))")
     (auto simp: server1_CHUNK_SIZE_def split: sum.splits)

declare server1_while.simps [simp del]

text \<open>The \<open>data\<close> listener, lines 116 to 138.\<close>

definition server1_on_data :: "engine \<Rightarrow> buffer \<Rightarrow> server1_state \<Rightarrow> server1_state" where
  "server1_on_data stt chunk s =
     (let s = s\<lparr>chunks := chunks s @ [chunk]\<rparr>;
          s = s\<lparr>currentBuffer := currentBuffer s @ chunk\<rparr>
      in server1_while stt s)"

text \<open>
  The \<open>end\<close> listener, lines 105 to 114; as in index.js the engine is called
  outside any \<open>try\<close>.
\<close>

definition server1_on_end :: "engine \<Rightarrow> server1_state \<Rightarrow> error option \<times> server1_state" where
  "server1_on_end stt s =
     (if length (currentBuffer s) > 0 then
        let s' = s\<lparr>stt_calls := stt_calls s @ [RemainderCall (currentBuffer s)]\<rparr>
        in (case stt (currentBuffer s) of
              Inl err \<Rightarrow> (Some err, s')
            | Inr finalText \<Rightarrow>
                if trim finalText \<noteq> []
                then (None, s'\<lparr>transcriptionFile := transcriptionFile s' @ [FinalChunkLine finalText],
                                chunkCount := chunkCount s' + 1\<rparr>)
                else (None, s'))
      else (None, s))"

text \<open>The \<open>catch\<close> block, lines 177 to 183.\<close>

definition server1_catch :: "error \<Rightarrow> server1_state \<Rightarrow> string outcome \<times> server1_state" where
  "server1_catch error s =
     (Rejected error, s\<lparr>transcriptionFile := transcriptionFile s @ [ErrorLine (message error)]\<rparr>)"

text \<open>
  Lines 141 to 176: the complete buffer, then the accuracy when a reference text
  is given and is not the empty string.
\<close>

definition server1_complete ::
  "engine \<Rightarrow> string option \<Rightarrow> server1_state \<Rightarrow> string outcome \<times> server1_state" where
  "server1_complete stt referenceText s =
     (let s = s\<lparr>transcriptionFile := transcriptionFile s @ [CompleteTranscriptionHeader]\<rparr>;
          completeBuffer = concat (chunks s);
          s = s\<lparr>stt_calls := stt_calls s @ [CompleteCall completeBuffer]\<rparr>
      in case stt completeBuffer of
           Inl error \<Rightarrow> server1_catch error s
         | Inr finalResult \<Rightarrow>
             let s = s\<lparr>transcriptionFile :=
                         transcriptionFile s @ [CompleteTranscriptionText finalResult]\<rparr>;
                 s = (case referenceText of
                        None \<Rightarrow> s
                      | Some reference \<Rightarrow>
                          if reference = [] then s
                          else let accuracy = calculateAccuracy reference finalResult
                               in s\<lparr>transcriptionFile := transcriptionFile s
                                       @ [AccuracyMetrics reference finalResult accuracy],
                                     performanceLog := performanceLog s
                                       @ [TotalChunks (chunkCount s), WordAccuracy accuracy]\<rparr>)
             in (Resolved finalResult,
                 s\<lparr>transcriptionFile := transcriptionFile s @ [TranscriptionCompleted]\<rparr>))"

definition server1_initial :: server1_state where
  "server1_initial =
     \<lparr>chunks = [], currentBuffer = [], stt_calls = [],
      chunkCount = 0, transcriptionFile = [StartingLines], performanceLog = []\<rparr>"

definition server1_transcribeAudio ::
  "engine \<Rightarrow> source \<Rightarrow> string option \<Rightarrow> string outcome \<times> server1_state" where
  "server1_transcribeAudio stt src referenceText =
     (let s = fold (server1_on_data stt) (data src) server1_initial
      in case ending src of
           SourceError err \<Rightarrow>
             server1_catch err
               (s\<lparr>transcriptionFile := transcriptionFile s @ [FFmpegErrorLine err]\<rparr>)
         | End \<Rightarrow>
             (case server1_on_end stt s of
                (Some err, s) \<Rightarrow> (Uncaught err, s)
              | (None, s) \<Rightarrow> server1_complete stt referenceText s))"

section \<open>Reading the record of a run\<close>

text \<open>The buffers of the engine calls, by call site and in call order.\<close>

fun unit_of :: "stt_call \<Rightarrow> buffer list" where
  "unit_of (UnitCall b) = [b]"
| "unit_of c = []"

fun remainder_of :: "stt_call \<Rightarrow> buffer list" where
  "remainder_of (RemainderCall b) = [b]"
| "remainder_of c = []"

fun complete_of :: "stt_call \<Rightarrow> buffer list" where
  "complete_of (CompleteCall b) = [b]"
| "complete_of c = []"

definition units :: "stt_call list \<Rightarrow> buffer list" where
  "units calls = concat (map unit_of calls)"

definition remainders :: "stt_call list \<Rightarrow> buffer list" where
  "remainders calls = concat (map remainder_of calls)"

definition completes :: "stt_call list \<Rightarrow> buffer list" where
  "completes calls = concat (map complete_of calls)"

text \<open>
  The texts that the engine returns on a list of buffers, and the messages of the
  errors that it throws on them, each in order.
\<close>

definition transcripts :: "engine \<Rightarrow> buffer list \<Rightarrow> string list" where
  "transcripts stt bs = concat (map (\<lambda>b. case stt b of Inr t \<Rightarrow> [t] | Inl e \<Rightarrow> []) bs)"

definition failures :: "engine \<Rightarrow> buffer list \<Rightarrow> string list" where
  "failures stt bs = concat (map (\<lambda>b. case stt b of Inr t \<Rightarrow> [] | Inl e \<Rightarrow> [message e]) bs)"

definition blank :: "string \<Rightarrow> bool" where
  "blank t \<longleftrightarrow> trim t = []"

text \<open>
  The intermediate texts and the error markers that the console of index.js and
  the transcription file of server1.js hold, in order.
\<close>

fun index_text_of :: "index_line \<Rightarrow> string list" where
  "index_text_of (IntermediateResult t) = [t]"
| "index_text_of (FinalChunk t) = [t]"
| "index_text_of l = []"

fun index_marker_of :: "index_line \<Rightarrow> string list" where
  "index_marker_of (ErrorProcessingChunk m) = [m]"
| "index_marker_of l = []"

definition index_recorded :: "index_line list \<Rightarrow> string list" where
  "index_recorded ls = concat (map index_text_of ls)"

definition index_markers :: "index_line list \<Rightarrow> string list" where
  "index_markers ls = concat (map index_marker_of ls)"

fun server1_text_of :: "server1_line \<Rightarrow> string list" where
  "server1_text_of (ChunkLine k t) = [t]"
| "server1_text_of (FinalChunkLine t) = [t]"
| "server1_text_of l = []"

fun server1_marker_of :: "server1_line \<Rightarrow> string list" where
  "server1_marker_of (ErrorProcessingChunkLine m) = [m]"
| "server1_marker_of l = []"

definition server1_recorded :: "server1_line list \<Rightarrow> string list" where
  "server1_recorded ls = concat (map server1_text_of ls)"

definition server1_markers :: "server1_line list \<Rightarrow> string list" where
  "server1_markers ls = concat (map server1_marker_of ls)"

text \<open>
  What the \<open>data\<close> listeners have done between two states: \<open>bs\<close> are the chunks
  delivered and \<open>us\<close> the slices handed to the engine in between.
\<close>

definition index_progress ::
  "engine \<Rightarrow> index_state \<Rightarrow> index_state \<Rightarrow> buffer list \<Rightarrow> buffer list \<Rightarrow> bool" where
  "index_progress stt s s' bs us \<longleftrightarrow>
     chunks s' = chunks s @ bs \<and>
     concat us @ currentBuffer s' = currentBuffer s @ concat bs \<and>
     stt_calls s' = stt_calls s @ map UnitCall us \<and>
     list_all (\<lambda>u. length u = index_CHUNK_SIZE) us \<and>
     length (currentBuffer s') < index_CHUNK_SIZE \<and>
     index_recorded (console s') =
       index_recorded (console s) @ filter (\<lambda>t. \<not> blank t) (transcripts stt us) \<and>
     index_markers (console s') = index_markers (console s) @ failures stt us \<and>
     length (console s') =
       length (console s) + length (filter (\<lambda>t. \<not> blank t) (transcripts stt us))
         + length (failures stt us)"

definition server1_progress ::
  "engine \<Rightarrow> server1_state \<Rightarrow> server1_state \<Rightarrow> buffer list \<Rightarrow> buffer list \<Rightarrow> bool" where
  "server1_progress stt s s' bs us \<longleftrightarrow>
     chunks s' = chunks s @ bs \<and>
     concat us @ currentBuffer s' = currentBuffer s @ concat bs \<and>
     stt_calls s' = stt_calls s @ map UnitCall us \<and>
     list_all (\<lambda>u. length u = server1_CHUNK_SIZE) us \<and>
     length (currentBuffer s') < server1_CHUNK_SIZE \<and>
     server1_recorded (transcriptionFile s') =
       server1_recorded (transcriptionFile s) @ filter (\<lambda>t. \<not> blank t) (transcripts stt us) \<and>
     server1_markers (transcriptionFile s') = server1_markers (transcriptionFile s) @ failures stt us \<and>
     length (transcriptionFile s') =
       length (transcriptionFile s) + length (filter (\<lambda>t. \<not> blank t) (transcripts stt us))
         + length (failures stt us) \<and>
     chunkCount s' = chunkCount s + length (filter (\<lambda>t. \<not> blank t) (transcripts stt us)) \<and>
     performanceLog s' = performanceLog s"

section \<open>Invariants of the loops\<close>

text \<open>The matrix has \<open>m + 1\<close> rows of \<open>n + 1\<close> cells.\<close>

definition well_formed :: "nat \<Rightarrow> nat \<Rightarrow> matrix \<Rightarrow> bool" where
  "well_formed m n dp \<longleftrightarrow> length dp = m + 1 \<and> (\<forall>i \<le> m. length (dp ! i) = n + 1)"

text \<open>
  The state of the matrix when the nested loops stand at row \<open>i0\<close> and column \<open>j0\<close>:
  the first row, the first column, the rows above \<open>i0\<close> and the cells of row \<open>i0\<close>
  left of \<open>j0\<close> hold the values of the recurrence.
\<close>

definition filled :: "'a list \<Rightarrow> 'a list \<Rightarrow> nat \<Rightarrow> nat \<Rightarrow> matrix \<Rightarrow> bool" where
  "filled ref hyp i0 j0 dp \<longleftrightarrow>
     well_formed (length ref) (length hyp) dp \<and>
     (\<forall>i \<le> length ref. \<forall>j \<le> length hyp.
        (i = 0 \<or> j = 0 \<or> i < i0 \<or> (i = i0 \<and> j < j0)) \<longrightarrow> dp ! i ! j = spec_d ref hyp i j)"


section \<open>The matrix of calculateWER holds the recurrence\<close>

lemma well_formed_dp_set: "well_formed m n dp \<Longrightarrow> well_formed m n (dp_set dp i j v)"
proof (cases "i < length dp")
  case True
  assume "well_formed m n dp"
  with True show ?thesis
    by (auto simp: well_formed_def dp_set_def nth_list_update)
next
  case False
  assume "well_formed m n dp"
  with False show ?thesis
    by (simp add: well_formed_def dp_set_def)
qed

lemma nth_dp_set:
  "well_formed m n dp \<Longrightarrow> i \<le> m \<Longrightarrow> j \<le> n \<Longrightarrow> i' \<le> m \<Longrightarrow>
   dp_set dp i j v ! i' ! j' = (if i' = i \<and> j' = j then v else dp ! i' ! j')"
  by (auto simp: well_formed_def dp_set_def nth_list_update)

lemma well_formed_create: "well_formed m n (create_matrix m n)"
  by (simp add: well_formed_def create_matrix_def del: replicate_Suc)

lemma init_col_aux:
  "well_formed m n dp \<Longrightarrow> k \<le> m + 1 \<Longrightarrow>
   well_formed m n (fold (\<lambda>i dp. dp_set dp i 0 i) [0..<k] dp) \<and>
   (\<forall>i \<le> m. \<forall>j. fold (\<lambda>i dp. dp_set dp i 0 i) [0..<k] dp ! i ! j
       = (if i < k \<and> j = 0 then i else dp ! i ! j))"
proof (induction k)
  case 0
  then show ?case by simp
next
  case (Suc k)
  then show ?case
    by (auto simp: well_formed_dp_set nth_dp_set)
qed

lemma init_row_aux:
  "well_formed m n dp \<Longrightarrow> k \<le> n + 1 \<Longrightarrow>
   well_formed m n (fold (\<lambda>j dp. dp_set dp 0 j j) [0..<k] dp) \<and>
   (\<forall>i \<le> m. \<forall>j. fold (\<lambda>j dp. dp_set dp 0 j j) [0..<k] dp ! i ! j
       = (if i = 0 \<and> j < k then j else dp ! i ! j))"
proof (induction k)
  case 0
  then show ?case by simp
next
  case (Suc k)
  then show ?case
    by (auto simp: well_formed_dp_set nth_dp_set)
qed

lemma filledD:
  "filled ref hyp i0 j0 dp \<Longrightarrow> i \<le> length ref \<Longrightarrow> j \<le> length hyp \<Longrightarrow>
   i = 0 \<or> j = 0 \<or> i < i0 \<or> (i = i0 \<and> j < j0) \<Longrightarrow> dp ! i ! j = spec_d ref hyp i j"
  unfolding filled_def by blast

lemma filledI:
  "well_formed (length ref) (length hyp) dp \<Longrightarrow>
   (\<And>i j. i \<le> length ref \<Longrightarrow> j \<le> length hyp \<Longrightarrow>
      i = 0 \<or> j = 0 \<or> i < i0 \<or> (i = i0 \<and> j < j0) \<Longrightarrow> dp ! i ! j = spec_d ref hyp i j) \<Longrightarrow>
   filled ref hyp i0 j0 dp"
  unfolding filled_def by blast

lemma filled_well_formed: "filled ref hyp i0 j0 dp \<Longrightarrow> well_formed (length ref) (length hyp) dp"
  unfolding filled_def by blast

lemma spec_d_zero_left: "spec_d ref hyp 0 j = j"
  by (cases j) simp_all

lemma filled_init:
  "filled ref hyp 1 1
     (init_first_row (length hyp) (init_first_column (length ref)
        (create_matrix (length ref) (length hyp))))"
proof -
  let ?m = "length ref" and ?n = "length hyp"
  let ?c = "init_first_column ?m (create_matrix ?m ?n)"
  have c: "well_formed ?m ?n ?c"
    "\<forall>i \<le> ?m. \<forall>j. ?c ! i ! j = (if i < ?m + 1 \<and> j = 0 then i else create_matrix ?m ?n ! i ! j)"
    using init_col_aux [OF well_formed_create, of "?m + 1" ?m ?n]
    by (simp_all add: init_first_column_def)
  have r: "well_formed ?m ?n (init_first_row ?n ?c)"
    "\<forall>i \<le> ?m. \<forall>j. init_first_row ?n ?c ! i ! j = (if i = 0 \<and> j < ?n + 1 then j else ?c ! i ! j)"
    using init_row_aux [OF c(1), of "?n + 1"]
    by (simp_all add: init_first_row_def)
  show ?thesis
    unfolding filled_def
  proof (intro conjI allI impI)
    show "well_formed ?m ?n (init_first_row ?n ?c)" by (rule r(1))
  next
    fix i j
    assume i: "i \<le> ?m" and j: "j \<le> ?n"
      and z: "i = 0 \<or> j = 0 \<or> i < 1 \<or> i = 1 \<and> j < 1"
    from z have "i = 0 \<or> j = 0" by auto
    then show "init_first_row ?n ?c ! i ! j = spec_d ref hyp i j"
      using i j r(2) c(2) by (auto simp: spec_d_zero_left)
  qed
qed

lemma fill_cell_step:
  assumes f: "filled ref hyp i0 j0 dp"
    and i0: "1 \<le> i0" "i0 \<le> length ref" and j0: "1 \<le> j0" "j0 \<le> length hyp"
  shows "filled ref hyp i0 (Suc j0) (fill_cell ref hyp i0 j0 dp)"
proof -
  let ?m = "length ref" and ?n = "length hyp"
  from f have wf: "well_formed ?m ?n dp" by (rule filled_well_formed)
  note old = filledD [OF f]
  obtain i' j' where ij: "i0 = Suc i'" "j0 = Suc j'"
    using i0 j0 by (cases i0; cases j0) auto
  have diag: "dp ! i' ! j' = spec_d ref hyp i' j'"
    using old [of i' j'] i0 j0 ij by simp
  have left: "dp ! i0 ! j' = spec_d ref hyp i0 j'"
    using old [of i0 j'] i0 j0 ij by simp
  have up: "dp ! i' ! j0 = spec_d ref hyp i' j0"
    using old [of i' j0] i0 j0 ij by simp
  have new: "fill_cell ref hyp i0 j0 dp = dp_set dp i0 j0 (spec_d ref hyp i0 j0)"
    using diag left up by (simp add: fill_cell_def ij)
  show ?thesis
    unfolding new
  proof (rule filledI)
    show "well_formed ?m ?n (dp_set dp i0 j0 (spec_d ref hyp i0 j0))"
      using wf by (rule well_formed_dp_set)
  next
    fix i j
    assume a: "i \<le> ?m" "j \<le> ?n" "i = 0 \<or> j = 0 \<or> i < i0 \<or> i = i0 \<and> j < Suc j0"
    show "dp_set dp i0 j0 (spec_d ref hyp i0 j0) ! i ! j = spec_d ref hyp i j"
    proof (cases "i = i0 \<and> j = j0")
      case True
      then show ?thesis using nth_dp_set [OF wf i0(2) j0(2) a(1)] by simp
    next
      case False
      with a(3) have "i = 0 \<or> j = 0 \<or> i < i0 \<or> i = i0 \<and> j < j0"
        by (auto simp: less_Suc_eq)
      from old [OF a(1,2) this] False show ?thesis
        using nth_dp_set [OF wf i0(2) j0(2) a(1)] by simp
    qed
  qed
qed

lemma fill_row_aux:
  assumes f: "filled ref hyp i0 1 dp" and i0: "1 \<le> i0" "i0 \<le> length ref"
  shows "k \<le> length hyp \<Longrightarrow> filled ref hyp i0 (Suc k) (fold (fill_cell ref hyp i0) [1..<Suc k] dp)"
proof (induction k)
  case 0
  with f show ?case by simp
next
  case (Suc k)
  then have "filled ref hyp i0 (Suc k) (fold (fill_cell ref hyp i0) [1..<Suc k] dp)"
    by simp
  from fill_cell_step [OF this i0] Suc.prems show ?case
    by simp
qed

lemma filled_next_row:
  assumes f: "filled ref hyp i0 (Suc (length hyp)) dp"
  shows "filled ref hyp (Suc i0) 1 dp"
proof (rule filledI)
  show "well_formed (length ref) (length hyp) dp"
    using f by (rule filled_well_formed)
next
  fix i j
  assume a: "i \<le> length ref" "j \<le> length hyp"
    "i = 0 \<or> j = 0 \<or> i < Suc i0 \<or> i = Suc i0 \<and> j < 1"
  then have "i = 0 \<or> j = 0 \<or> i < i0 \<or> i = i0 \<and> j < Suc (length hyp)"
    by auto
  from filledD [OF f a(1,2) this] show "dp ! i ! j = spec_d ref hyp i j" .
qed

lemma fill_row_step:
  assumes "filled ref hyp i0 1 dp" "1 \<le> i0" "i0 \<le> length ref"
  shows "filled ref hyp (Suc i0) 1 (fill_row ref hyp i0 dp)"
proof -
  have "fill_row ref hyp i0 dp = fold (fill_cell ref hyp i0) [1..<Suc (length hyp)] dp"
    by (simp only: fill_row_def Suc_eq_plus1)
  with fill_row_aux [OF assms order_refl] show ?thesis
    by (simp only: filled_next_row)
qed

lemma fill_matrix_aux:
  assumes f: "filled ref hyp 1 1 dp"
  shows "k \<le> length ref \<Longrightarrow> filled ref hyp (Suc k) 1 (fold (fill_row ref hyp) [1..<Suc k] dp)"
proof (induction k)
  case 0
  with f show ?case by simp
next
  case (Suc k)
  then have "filled ref hyp (Suc k) 1 (fold (fill_row ref hyp) [1..<Suc k] dp)"
    by simp
  from fill_row_step [OF this] Suc.prems show ?case
    by simp
qed

lemma wer_matrix_filled:
  "filled ref hyp (Suc (length ref)) 1 (wer_matrix ref hyp)"
proof -
  have "wer_matrix ref hyp = fold (fill_row ref hyp) [1..<Suc (length ref)]
     (init_first_row (length hyp) (init_first_column (length ref)
        (create_matrix (length ref) (length hyp))))"
    by (simp only: wer_matrix_def fill_matrix_def Suc_eq_plus1)
  with fill_matrix_aux [OF filled_init order_refl, of ref hyp] show ?thesis
    by simp
qed

lemma wer_matrix_cell:
  "i \<le> length ref \<Longrightarrow> j \<le> length hyp \<Longrightarrow> wer_matrix ref hyp ! i ! j = spec_d ref hyp i j"
  by (rule filledD [OF wer_matrix_filled]) auto

section \<open>The recurrence is the least cost of an edit script\<close>

lemma spec_d_step_aux:
  "spec_d r h i j \<le> Suc (spec_d r h (Suc i) j) \<and> spec_d r h i (Suc j) \<le> Suc (spec_d r h i j)"
proof (induction "i + j" arbitrary: i j rule: less_induct)
  case less
  have D: "spec_d r h i (Suc j) \<le> Suc (spec_d r h i j)"
  proof (cases i)
    case 0
    then show ?thesis by (simp add: spec_d_zero_left)
  next
    case (Suc i')
    with less [of i' j] show ?thesis by auto
  qed
  have A: "spec_d r h i j \<le> Suc (spec_d r h (Suc i) j)"
  proof (cases j)
    case 0
    then show ?thesis by simp
  next
    case (Suc j')
    have 1: "spec_d r h i (Suc j') \<le> Suc (spec_d r h i j')"
    proof (cases i)
      case 0
      then show ?thesis by (simp add: spec_d_zero_left)
    next
      case (Suc i')
      with less [of i' j'] \<open>j = Suc j'\<close> show ?thesis by auto
    qed
    have 2: "spec_d r h i j' \<le> Suc (spec_d r h (Suc i) j')"
      using less [of i j'] Suc by simp
    from 1 2 Suc show ?thesis by auto
  qed
  from A D show ?case by simp
qed

lemma spec_d_step_aux2:
  "spec_d r h i j \<le> Suc (spec_d r h i (Suc j)) \<and> spec_d r h (Suc i) j \<le> Suc (spec_d r h i j)"
proof (induction "i + j" arbitrary: i j rule: less_induct)
  case less
  have C: "spec_d r h (Suc i) j \<le> Suc (spec_d r h i j)"
  proof (cases j)
    case 0
    then show ?thesis by simp
  next
    case (Suc j')
    with less [of i j'] show ?thesis by auto
  qed
  have B: "spec_d r h i j \<le> Suc (spec_d r h i (Suc j))"
  proof (cases i)
    case 0
    then show ?thesis by (simp add: spec_d_zero_left)
  next
    case (Suc i')
    have 1: "spec_d r h (Suc i') j \<le> Suc (spec_d r h i' j)"
    proof (cases j)
      case 0
      then show ?thesis by simp
    next
      case (Suc j')
      with less [of i' j'] \<open>i = Suc i'\<close> show ?thesis by auto
    qed
    have 2: "spec_d r h i' j \<le> Suc (spec_d r h i' (Suc j))"
      using less [of i' j] Suc by simp
    from 1 2 Suc show ?thesis by auto
  qed
  from B C show ?case by simp
qed

lemma spec_d_insert: "spec_d r h i (Suc j) \<le> Suc (spec_d r h i j)"
  using spec_d_step_aux by blast

lemma spec_d_delete: "spec_d r h (Suc i) j \<le> Suc (spec_d r h i j)"
  using spec_d_step_aux2 by blast

lemma spec_d_substitute: "spec_d r h (Suc i) (Suc j) \<le> Suc (spec_d r h i j)"
  by simp

lemma edits_delete_all: "i \<le> length r \<Longrightarrow> edits (take i r) [] i"
proof (induction i)
  case 0
  show ?case by (simp add: edits.nil)
next
  case (Suc i)
  then have "edits (take i r) [] i" by simp
  from edits.deletion [OF this, of "r ! i"] Suc.prems show ?case
    by (simp add: take_Suc_conv_app_nth)
qed

lemma edits_insert_all: "j \<le> length h \<Longrightarrow> edits [] (take j h) j"
proof (induction j)
  case 0
  show ?case by (simp add: edits.nil)
next
  case (Suc j)
  then have "edits [] (take j h) j" by simp
  from edits.insertion [OF this, of "h ! j"] Suc.prems show ?case
    by (simp add: take_Suc_conv_app_nth)
qed

lemma edits_spec_d:
  "i \<le> length r \<Longrightarrow> j \<le> length h \<Longrightarrow> edits (take i r) (take j h) (spec_d r h i j)"
proof (induction r h i j rule: spec_d.induct)
  case (1 r h i)
  then show ?case by (simp add: edits_delete_all)
next
  case (2 r h j)
  then show ?case by (simp add: edits_insert_all)
next
  case (3 r h i j)
  from "3.prems" have ti: "take (Suc i) r = take i r @ [r ! i]"
    and tj: "take (Suc j) h = take j h @ [h ! j]"
    by (simp_all add: take_Suc_conv_app_nth)
  show ?case
  proof (cases "r ! i = h ! j")
    case True
    with 3 have "edits (take i r) (take j h) (spec_d r h i j)" by simp
    from edits.keep [OF this, of "r ! i"] True show ?thesis
      by (simp add: ti tj)
  next
    case False
    let ?a = "spec_d r h i j" and ?b = "spec_d r h (Suc i) j" and ?c = "spec_d r h i (Suc j)"
    from 3 False have a: "edits (take i r) (take j h) ?a"
      and b: "edits (take (Suc i) r) (take j h) ?b"
      and c: "edits (take i r) (take (Suc j) h) ?c"
      by simp_all
    have v: "spec_d r h (Suc i) (Suc j) = Suc (min ?a (min ?b ?c))"
      using False by simp
    have "min ?a (min ?b ?c) = ?a \<or> min ?a (min ?b ?c) = ?b \<or> min ?a (min ?b ?c) = ?c"
      by (simp add: min_def)
    then consider "min ?a (min ?b ?c) = ?a" | "min ?a (min ?b ?c) = ?b" | "min ?a (min ?b ?c) = ?c"
      by blast
    then show ?thesis
    proof cases
      case 1
      from edits.substitution [OF a, of "r ! i" "h ! j"] show ?thesis
        by (simp only: v 1 ti tj)
    next
      case 2
      from edits.insertion [OF b, of "h ! j"] show ?thesis
        by (simp only: v 2 tj)
    next
      case 3
      from edits.deletion [OF c, of "r ! i"] show ?thesis
        by (simp only: v 3 ti)
    qed
  qed
qed

lemma take_eq_snoc:
  assumes "take i r = xs @ [x]" "i \<le> length r"
  shows "\<exists>i'. i = Suc i' \<and> take i' r = xs \<and> r ! i' = x"
proof (cases i)
  case 0
  with assms show ?thesis by simp
next
  case (Suc i')
  with assms have "take i' r @ [r ! i'] = xs @ [x]"
    by (simp add: take_Suc_conv_app_nth)
  with Suc show ?thesis by simp
qed

lemma spec_d_least:
  "edits xs ys k \<Longrightarrow> i \<le> length r \<Longrightarrow> j \<le> length h \<Longrightarrow>
   take i r = xs \<Longrightarrow> take j h = ys \<Longrightarrow> spec_d r h i j \<le> k"
proof (induction arbitrary: i j rule: edits.induct)
  case nil
  then have "i = 0" "j = 0" by auto
  then show ?case by simp
next
  case (keep xs ys k x)
  from take_eq_snoc [OF keep.prems(3,1)] obtain i' where
    i: "i = Suc i'" "take i' r = xs" "r ! i' = x" by blast
  from take_eq_snoc [OF keep.prems(4,2)] obtain j' where
    j: "j = Suc j'" "take j' h = ys" "h ! j' = x" by blast
  from keep.IH [of i' j'] keep.prems i j show ?case by simp
next
  case (substitution xs ys k x y)
  from take_eq_snoc [OF substitution.prems(3,1)] obtain i' where
    i: "i = Suc i'" "take i' r = xs" "r ! i' = x" by blast
  from take_eq_snoc [OF substitution.prems(4,2)] obtain j' where
    j: "j = Suc j'" "take j' h = ys" "h ! j' = y" by blast
  from substitution.IH [of i' j'] substitution.prems i j
  have "spec_d r h i' j' \<le> k" by simp
  with spec_d_substitute [of r h i' j'] show ?case
    unfolding i(1) j(1) by linarith
next
  case (insertion xs ys k y)
  from take_eq_snoc [OF insertion.prems(4,2)] obtain j' where
    j: "j = Suc j'" "take j' h = ys" "h ! j' = y" by blast
  from insertion.IH [of i j'] insertion.prems j
  have "spec_d r h i j' \<le> k" by simp
  with spec_d_insert [of r h i j'] show ?case
    unfolding j(1) by linarith
next
  case (deletion xs ys k x)
  from take_eq_snoc [OF deletion.prems(3,1)] obtain i' where
    i: "i = Suc i'" "take i' r = xs" "r ! i' = x" by blast
  from deletion.IH [of i' j] deletion.prems i
  have "spec_d r h i' j \<le> k" by simp
  with spec_d_delete [of r h i' j] show ?case
    unfolding i(1) by linarith
qed

section \<open>Splitting and joining at the space character\<close>

lemma split_space_not_Nil: "split_space s \<noteq> []"
  by (induction s) auto

lemma length_split_space: "length (split_space s) = Suc (count_list s CHR '' '')"
proof (induction s)
  case Nil
  show ?case by simp
next
  case (Cons c s)
  then show ?case
    using split_space_not_Nil [of s] by (cases "split_space s") auto
qed

lemma join_space_Cons: "ts \<noteq> [] \<Longrightarrow> join_space (t # ts) = t @ CHR '' '' # join_space ts"
  by (cases ts) simp_all

lemma join_space_Cons_hd:
  "ts \<noteq> [] \<Longrightarrow> join_space ((c # hd ts) # tl ts) = c # join_space ts"
  by (cases ts rule: join_space.cases) simp_all

lemma join_split_space: "join_space (split_space s) = s"
proof (induction s)
  case Nil
  show ?case by simp
next
  case (Cons c s)
  then show ?case
    by (simp add: join_space_Cons join_space_Cons_hd split_space_not_Nil)
qed

lemma split_space_no_space: "t \<in> set (split_space s) \<Longrightarrow> CHR '' '' \<notin> set t"
proof (induction s arbitrary: t)
  case Nil
  then show ?case by simp
next
  case (Cons c s)
  show ?case
  proof (cases "c = CHR '' ''")
    case True
    with Cons show ?thesis by auto
  next
    case False
    obtain u us where us: "split_space s = u # us"
      using split_space_not_Nil [of s] by (cases "split_space s") auto
    with Cons.prems False have "t = c # u \<or> t \<in> set us" by simp
    then show ?thesis
      using Cons.IH [of u] Cons.IH [of t] us False by auto
  qed
qed

lemma split_space_unique:
  "ts \<noteq> [] \<Longrightarrow> \<forall>t \<in> set ts. CHR '' '' \<notin> set t \<Longrightarrow> split_space (join_space ts) = ts"
proof (induction ts rule: join_space.induct)
  case 1
  then show ?case by simp
next
  case (2 t)
  then have "CHR '' '' \<notin> set t" by simp
  then show ?case by (induction t) auto
next
  case (3 t u ts)
  then have t: "CHR '' '' \<notin> set t" and IH: "split_space (join_space (u # ts)) = u # ts"
    by simp_all
  from t show ?case
    by (induction t) (auto simp: IH)
qed

lemma wer_tokens_not_Nil: "wer_tokens text \<noteq> []"
  by (simp add: wer_tokens_def split_space_not_Nil)

lemma calculateWER_spec_d:
  "calculateWER reference hypothesis =
     Finite (of_nat (spec_d (wer_tokens reference) (wer_tokens hypothesis)
                       (length (wer_tokens reference)) (length (wer_tokens hypothesis)))
             / of_nat (length (wer_tokens reference)))"
  by (simp add: calculateWER_def Let_def wer_matrix_cell js_div_def wer_tokens_not_Nil)

lemma wer_tokens_fox_ref:
  "wer_tokens ''the quick brown fox'' = [''the'', ''quick'', ''brown'', ''fox'']"
  by code_simp

lemma wer_tokens_fox_hyp: "wer_tokens ''the quick fox'' = [''the'', ''quick'', ''fox'']"
  by code_simp

section \<open>Claims about the scorer\<close>

text \<open>
  Claim C1. For every reference and hypothesis text, the cell
  \<open>dp[ref.length][hyp.length]\<close> read by \<open>calculateWER\<close> is the value \<open>d[|ref|][|hyp|]\<close>
  of the recurrence of the specification over the two word lists, \<open>calculateWER\<close>
  returns that value divided by the number of reference words, and the value is
  the Levenshtein distance: some edit script with unit costs has this cost and none
  has a smaller one. For \<open>the quick brown fox\<close> against \<open>the quick fox\<close> the distance
  is 1 and the result is 1/4. (The word lists of \<open>calculateWER\<close> are never empty, so
  the statement has no side condition.)
\<close>

theorem calculateWER_edit_distance:
  "(let ref = wer_tokens reference; hyp = wer_tokens hypothesis;
        d = spec_d ref hyp (length ref) (length hyp)
    in wer_matrix ref hyp ! length ref ! length hyp = d \<and>
       calculateWER reference hypothesis = Finite (of_nat d / of_nat (length ref)) \<and>
       edits ref hyp d \<and>
       (\<forall>k. edits ref hyp k \<longrightarrow> d \<le> k)) \<and>
   spec_d (wer_tokens ''the quick brown fox'') (wer_tokens ''the quick fox'') 4 3 = 1 \<and>
   calculateWER ''the quick brown fox'' ''the quick fox'' = Finite (1 / 4)"
proof -
  let ?ref = "wer_tokens reference" and ?hyp = "wer_tokens hypothesis"
  let ?d = "spec_d ?ref ?hyp (length ?ref) (length ?hyp)"
  have cell: "wer_matrix ?ref ?hyp ! length ?ref ! length ?hyp = ?d"
    by (simp add: wer_matrix_cell)
  have wer: "calculateWER reference hypothesis = Finite (of_nat ?d / of_nat (length ?ref))"
    by (rule calculateWER_spec_d)
  have script: "edits ?ref ?hyp ?d"
    using edits_spec_d [of "length ?ref" ?ref "length ?hyp" ?hyp] by simp
  have least: "\<forall>k. edits ?ref ?hyp k \<longrightarrow> ?d \<le> k"
    by (intro allI impI, rule spec_d_least [where xs = ?ref and ys = ?hyp]) simp_all
  have r: "wer_tokens ''the quick brown fox'' = [''the'', ''quick'', ''brown'', ''fox'']"
    by (rule wer_tokens_fox_ref)
  have h: "wer_tokens ''the quick fox'' = [''the'', ''quick'', ''fox'']"
    by (rule wer_tokens_fox_hyp)
  have ex1: "spec_d (wer_tokens ''the quick brown fox'') (wer_tokens ''the quick fox'') 4 3 = 1"
    by (simp add: r h numeral_eq_Suc)
  have ex2: "calculateWER ''the quick brown fox'' ''the quick fox'' = Finite (1 / 4)"
    using ex1 by (simp add: calculateWER_spec_d r h)
  from cell wer script least ex1 ex2 show ?thesis
    by (simp only: Let_def simp_thms)
qed

theorem calculateWER_edit_distance_witness:
  "edits (wer_tokens ''the quick brown fox'') (wer_tokens ''the quick fox'') 1 \<and>
   spec_d (wer_tokens ''the quick brown fox'') (wer_tokens ''the quick fox'')
     (length (wer_tokens ''the quick brown fox'')) (length (wer_tokens ''the quick fox'')) \<le> 1"
proof -
  have r: "wer_tokens ''the quick brown fox'' = [''the'', ''quick'', ''brown'', ''fox'']"
    by (rule wer_tokens_fox_ref)
  have h: "wer_tokens ''the quick fox'' = [''the'', ''quick'', ''fox'']"
    by (rule wer_tokens_fox_hyp)
  have e0: "edits ([] :: string list) [] 0"
    by (rule edits.nil)
  from edits.keep [OF e0, of "''the''"]
  have e1: "edits [''the''] [''the''] 0" by simp
  from edits.keep [OF e1, of "''quick''"]
  have e2: "edits [''the'', ''quick''] [''the'', ''quick''] 0" by simp
  from edits.deletion [OF e2, of "''brown''"]
  have e3: "edits [''the'', ''quick'', ''brown''] [''the'', ''quick''] 1" by simp
  from edits.keep [OF e3, of "''fox''"]
  have e4: "edits [''the'', ''quick'', ''brown'', ''fox''] [''the'', ''quick'', ''fox''] 1" by simp
  then have e: "edits (wer_tokens ''the quick brown fox'') (wer_tokens ''the quick fox'') 1"
    by (simp only: r h)
  from calculateWER_edit_distance [of "''the quick brown fox''" "''the quick fox''"] e
  show ?thesis
    by (simp only: Let_def)
qed

text \<open>
  Claim C10. For every pair of texts, the empty reference included,
  \<open>reference.toLowerCase().split(" ")\<close> has at least one token (exactly the empty
  token for the empty text), so \<open>calculateWER\<close> never divides by zero: its result is
  neither \<open>NaN\<close> nor \<open>Infinity\<close> but a finite number that is not negative.
\<close>

theorem calculateWER_divisor_positive:
  "1 \<le> length (wer_tokens reference) \<and>
   wer_tokens [] = [[]] \<and>
   calculateWER reference hypothesis \<noteq> NaN \<and>
   calculateWER reference hypothesis \<noteq> Infinity \<and>
   (\<exists>q. 0 \<le> q \<and> calculateWER reference hypothesis = Finite q)"
proof -
  have 1: "1 \<le> length (wer_tokens reference)"
    using wer_tokens_not_Nil [of reference] by (cases "wer_tokens reference") simp_all
  have 2: "wer_tokens [] = [[]]"
    by (simp add: wer_tokens_def toLowerCase_def)
  have 3: "\<exists>q. 0 \<le> q \<and> calculateWER reference hypothesis = Finite q"
    by (simp add: calculateWER_spec_d)
  from 1 2 3 show ?thesis by auto
qed

text \<open>
  Claim C5, as the specification states it, fails: \<open>calculateWER\<close> splits at the
  single space character only. A tab does not separate two words, and two
  adjacent spaces give an empty word, while splitting on white space gives the
  two words \<open>a\<close> and \<open>b\<close> in both cases.
\<close>

theorem wer_tokens_whitespace_counterexample:
  "wer_tokens (''a'' @ [CHR 0x09] @ ''b'') = [''a'' @ [CHR 0x09] @ ''b''] \<and>
   spec_tokenize (''a'' @ [CHR 0x09] @ ''b'') = [''a'', ''b''] \<and>
   wer_tokens ''a  b'' = [''a'', [], ''b''] \<and>
   spec_tokenize ''a  b'' = [''a'', ''b''] \<and>
   wer_tokens (''a'' @ [CHR 0x09] @ ''b'') \<noteq> spec_tokenize (''a'' @ [CHR 0x09] @ ''b'')"
  by code_simp

text \<open>
  Claim C5, amended. For every text, \<open>calculateWER\<close> lowercases it and splits the
  lowercased text at every single space character: the tokens contain no space,
  joined by single spaces they give the lowercased text back, so that nothing of
  it is removed, there is one more token than the lowercased text has spaces,
  and they are the only such list. These token lists are what the matrix is
  computed over. Lowercasing is not limited to \<open>A\<close> to \<open>Z\<close>: the capital E with acute
  accent, \<open>U+00C9\<close>, is scored as equal to the small one, \<open>U+00E9\<close>; and punctuation
  stays in the words.
\<close>

theorem wer_tokens_single_space:
  "wer_tokens s = split_space (toLowerCase s) \<and>
   join_space (wer_tokens s) = toLowerCase s \<and>
   length (wer_tokens s) = Suc (count_list (toLowerCase s) CHR '' '') \<and>
   (\<forall>t \<in> set (wer_tokens s). CHR '' '' \<notin> set t) \<and>
   (\<forall>ts. ts \<noteq> [] \<and> (\<forall>t \<in> set ts. CHR '' '' \<notin> set t) \<and> join_space ts = toLowerCase s
      \<longrightarrow> ts = wer_tokens s) \<and>
   calculateWER reference hypothesis =
     js_div (wer_matrix (wer_tokens reference) (wer_tokens hypothesis)
               ! length (wer_tokens reference) ! length (wer_tokens hypothesis))
            (length (wer_tokens reference)) \<and>
   wer_tokens ''Hello, World.'' = [''hello,'', ''world.''] \<and>
   calculateWER [CHR 0xC9] [CHR 0xE9] = Finite 0"
proof -
  have uniq: "\<forall>ts. ts \<noteq> [] \<and> (\<forall>t \<in> set ts. CHR '' '' \<notin> set t) \<and> join_space ts = toLowerCase s
      \<longrightarrow> ts = wer_tokens s"
  proof (intro allI impI)
    fix ts :: "string list"
    assume a: "ts \<noteq> [] \<and> (\<forall>t \<in> set ts. CHR '' '' \<notin> set t) \<and> join_space ts = toLowerCase s"
    then have 1: "ts \<noteq> []" and 2: "\<forall>t \<in> set ts. CHR '' '' \<notin> set t"
      and 3: "join_space ts = toLowerCase s"
      by simp_all
    from split_space_unique [OF 1 2] have "ts = split_space (join_space ts)"
      by (rule sym)
    then show "ts = wer_tokens s"
      by (simp only: 3 wer_tokens_def)
  qed
  have hello: "wer_tokens ''Hello, World.'' = [''hello,'', ''world.'']"
    by code_simp
  have "wer_tokens [CHR 0xC9] = [[CHR 0xE9]]" "wer_tokens [CHR 0xE9] = [[CHR 0xE9]]"
    by code_simp+
  then have accent: "calculateWER [CHR 0xC9] [CHR 0xE9] = Finite 0"
    by (simp add: calculateWER_spec_d)
  have general: "wer_tokens s = split_space (toLowerCase s) \<and>
   join_space (wer_tokens s) = toLowerCase s \<and>
   length (wer_tokens s) = Suc (count_list (toLowerCase s) CHR '' '') \<and>
   (\<forall>t \<in> set (wer_tokens s). CHR '' '' \<notin> set t) \<and>
   calculateWER reference hypothesis =
     js_div (wer_matrix (wer_tokens reference) (wer_tokens hypothesis)
               ! length (wer_tokens reference) ! length (wer_tokens hypothesis))
            (length (wer_tokens reference))"
    by (simp add: wer_tokens_def join_split_space split_space_no_space length_split_space
        calculateWER_def Let_def)
  from general uniq hello accent show ?thesis
    by blast
qed

theorem wer_tokens_single_space_witness:
  "[''a'', [], ''b.''] \<noteq> [] \<and>
   CHR '' '' \<notin> set ''a'' \<and> CHR '' '' \<notin> set ''b.'' \<and>
   join_space [''a'', [], ''b.''] = toLowerCase ''A  b.'' \<and>
   wer_tokens ''A  b.'' = [''a'', [], ''b.'']"
proof -
  have j: "join_space [''a'', [], ''b.''] = toLowerCase ''A  b.''"
    by code_simp
  have n: "\<forall>t \<in> set [''a'', [], ''b.'']. CHR '' '' \<notin> set t"
    by simp
  note inst = wer_tokens_single_space [of "''A  b.''"]
  from inst j n have t: "wer_tokens ''A  b.'' = [''a'', [], ''b.'']"
    by (metis list.distinct(1))
  from j t show ?thesis
    by simp
qed

section \<open>What toFixed prints\<close>





















section \<open>The arithmetic of doubles\<close>











section \<open>Sample texts, evaluated\<close>




lemma double_two_thirds: "double (2 / 3) = 6004799503160661 / 2 ^ 53"
  by code_simp



lemma wer_tokens_a: "wer_tokens ''a'' = [''a'']"
  by code_simp







text \<open>
  Claim C3, as the specification states it, fails. The empty reference has no
  words, and the specification asks for \<open>ScorerDomainError\<close> there;
  \<open>calculateWER\<close> splits the empty reference into one empty token and returns
  the number 1 against the hypothesis \<open>a\<close>.
\<close>

theorem calculateWER_empty_reference_counterexample:
  "spec_tokenize [] = [] \<and>
   spec_wordErrorRate [] ''a'' = Inl ScorerDomainError \<and>
   wer_tokens [] = [[]] \<and>
   calculateWER [] ''a'' = Finite 1"
proof -
  have t: "wer_tokens [] = [[]]"
    by (simp add: wer_tokens_def toLowerCase_def)
  have "spec_d [[]] [''a''] 1 1 = 1"
    by simp
  then have "calculateWER [] ''a'' = Finite 1"
    by (simp add: calculateWER_spec_d t wer_tokens_a)
  with t show ?thesis
    by (simp add: spec_tokenize_def spec_wordErrorRate_def)
qed

text \<open>
  Claim C3, amended. For every hypothesis text, \<open>calculateWER\<close> called with a
  reference text that has no words under white-space splitting does not fail:
  \<open>split(" ")\<close> still gives at least one token and the result is the finite number
  \<open>d[|ref|][|hyp|] / |ref|\<close> over the tokens of the code; for the empty reference,
  whose only token is the empty string, it is the distance itself. The result is
  never \<open>NaN\<close> or \<open>Infinity\<close>.
\<close>

theorem calculateWER_no_domain_error:
  "spec_tokenize reference = [] \<Longrightarrow>
   1 \<le> length (wer_tokens reference) \<and>
   calculateWER reference hypothesis =
     Finite (of_nat (spec_d (wer_tokens reference) (wer_tokens hypothesis)
                       (length (wer_tokens reference)) (length (wer_tokens hypothesis)))
             / of_nat (length (wer_tokens reference))) \<and>
   calculateWER [] hypothesis =
     Finite (of_nat (spec_d [[]] (wer_tokens hypothesis) 1 (length (wer_tokens hypothesis))))"
proof -
  have 1: "1 \<le> length (wer_tokens reference)"
    using wer_tokens_not_Nil [of reference] by (cases "wer_tokens reference") simp_all
  have t: "wer_tokens [] = [[]]"
    by (simp add: wer_tokens_def toLowerCase_def)
  have 2: "calculateWER [] hypothesis =
     Finite (of_nat (spec_d [[]] (wer_tokens hypothesis) 1 (length (wer_tokens hypothesis))))"
    by (simp add: calculateWER_spec_d t)
  from 1 2 show ?thesis
    by (simp only: calculateWER_spec_d simp_thms)
qed

theorem calculateWER_no_domain_error_witness:
  "spec_tokenize [] = [] \<and> 1 \<le> length (wer_tokens []) \<and> calculateWER [] ''a'' = Finite 1"
proof -
  have e: "spec_tokenize [] = []"
    by (simp add: spec_tokenize_def)
  from calculateWER_no_domain_error [OF e, of "''a''"]
  have l: "1 \<le> length (wer_tokens [])"
    and w: "calculateWER [] ''a'' =
      Finite (of_nat (spec_d [[]] (wer_tokens ''a'') 1 (length (wer_tokens ''a''))))"
    by blast+
  from w have "calculateWER [] ''a'' = Finite 1"
    by (simp add: wer_tokens_a)
  with e l show ?thesis
    by blast
qed

section \<open>The loops of the data listeners\<close>

lemma units_append: "units (xs @ ys) = units xs @ units ys"
  by (simp add: units_def)

lemma remainders_append: "remainders (xs @ ys) = remainders xs @ remainders ys"
  by (simp add: remainders_def)

lemma completes_append: "completes (xs @ ys) = completes xs @ completes ys"
  by (simp add: completes_def)

lemma calls_of_units:
  "units (map UnitCall us) = us" "remainders (map UnitCall us) = []"
  "completes (map UnitCall us) = []"
  by (induction us) (simp_all add: units_def remainders_def completes_def)

lemma calls_of_single:
  "units [UnitCall b] = [b]" "units [RemainderCall b] = []" "units [CompleteCall b] = []"
  "remainders [UnitCall b] = []" "remainders [RemainderCall b] = [b]"
  "remainders [CompleteCall b] = []"
  "completes [UnitCall b] = []" "completes [RemainderCall b] = []"
  "completes [CompleteCall b] = [b]"
  "units [] = []" "remainders [] = []" "completes [] = []"
  "units (c # cs) = unit_of c @ units cs" "remainders (c # cs) = remainder_of c @ remainders cs"
  "completes (c # cs) = complete_of c @ completes cs"
  by (simp_all add: units_def remainders_def completes_def)

lemma transcripts_append: "transcripts stt (xs @ ys) = transcripts stt xs @ transcripts stt ys"
  by (simp add: transcripts_def)

lemma transcripts_Nil: "transcripts stt [] = []"
  by (simp add: transcripts_def)

lemma failures_append: "failures stt (xs @ ys) = failures stt xs @ failures stt ys"
  by (simp add: failures_def)

lemma index_recorded_append: "index_recorded (xs @ ys) = index_recorded xs @ index_recorded ys"
  by (simp add: index_recorded_def)

lemma index_markers_append: "index_markers (xs @ ys) = index_markers xs @ index_markers ys"
  by (simp add: index_markers_def)

lemma server1_recorded_append:
  "server1_recorded (xs @ ys) = server1_recorded xs @ server1_recorded ys"
  by (simp add: server1_recorded_def)

lemma server1_markers_append:
  "server1_markers (xs @ ys) = server1_markers xs @ server1_markers ys"
  by (simp add: server1_markers_def)

lemma index_while_stop:
  "length (currentBuffer s) < index_CHUNK_SIZE \<Longrightarrow> index_while stt s = s"
  by (subst index_while.simps) simp

lemma index_while_step:
  "index_CHUNK_SIZE \<le> length (currentBuffer s) \<Longrightarrow>
   index_while stt s =
     index_while stt
       (case stt (take index_CHUNK_SIZE (currentBuffer s)) of
          Inr intermediateText \<Rightarrow>
            if trim intermediateText \<noteq> []
            then s\<lparr>currentBuffer := drop index_CHUNK_SIZE (currentBuffer s),
                   stt_calls := stt_calls s @ [UnitCall (take index_CHUNK_SIZE (currentBuffer s))],
                   console := console s @ [IntermediateResult intermediateText]\<rparr>
            else s\<lparr>currentBuffer := drop index_CHUNK_SIZE (currentBuffer s),
                   stt_calls := stt_calls s @ [UnitCall (take index_CHUNK_SIZE (currentBuffer s))]\<rparr>
        | Inl err \<Rightarrow>
            s\<lparr>currentBuffer := drop index_CHUNK_SIZE (currentBuffer s),
              stt_calls := stt_calls s @ [UnitCall (take index_CHUNK_SIZE (currentBuffer s))],
              console := console s @ [ErrorProcessingChunk (message err)]\<rparr>)"
  by (subst index_while.simps) (simp add: Let_def split: sum.splits)

lemma index_while_progress: "\<exists>us. index_progress stt s (index_while stt s) [] us"
proof (induction "length (currentBuffer s)" arbitrary: s rule: less_induct)
  case less
  show ?case
  proof (cases "length (currentBuffer s) < index_CHUNK_SIZE")
    case True
    then have "index_progress stt s (index_while stt s) [] []"
      by (simp add: index_while_stop index_progress_def transcripts_def failures_def)
    then show ?thesis ..
  next
    case False
    let ?u = "take index_CHUNK_SIZE (currentBuffer s)"
    let ?s1 = "s\<lparr>currentBuffer := drop index_CHUNK_SIZE (currentBuffer s),
                  stt_calls := stt_calls s @ [UnitCall ?u]\<rparr>"
    let ?s2 = "case stt ?u of
          Inr intermediateText \<Rightarrow>
            if trim intermediateText \<noteq> []
            then ?s1\<lparr>console := console s @ [IntermediateResult intermediateText]\<rparr>
            else ?s1
        | Inl err \<Rightarrow> ?s1\<lparr>console := console s @ [ErrorProcessingChunk (message err)]\<rparr>"
    from False have ge: "index_CHUNK_SIZE \<le> length (currentBuffer s)" by simp
    have w: "index_while stt s = index_while stt ?s2"
      by (subst index_while_step [OF ge]) (simp split: sum.splits)
    have buf: "currentBuffer ?s2 = drop index_CHUNK_SIZE (currentBuffer s)"
      by (simp split: sum.splits)
    have "length (currentBuffer ?s2) < length (currentBuffer s)"
      using ge unfolding buf by (simp add: index_CHUNK_SIZE_def)
    from less [OF this] obtain us where IH: "index_progress stt ?s2 (index_while stt ?s2) [] us"
      by blast
    have lu: "length ?u = index_CHUNK_SIZE"
      using ge by simp
    have "index_progress stt s (index_while stt s) [] (?u # us)"
      using IH lu unfolding w index_progress_def
      by (simp add: transcripts_def failures_def index_recorded_def index_markers_def blank_def
          split: sum.splits)
    then show ?thesis ..
  qed
qed

lemma index_on_data_progress: "\<exists>us. index_progress stt s (index_on_data stt chunk s) [chunk] us"
proof -
  let ?s1 = "s\<lparr>currentBuffer := currentBuffer s @ chunk\<rparr>"
  from index_while_progress [of stt ?s1] obtain us
    where "index_progress stt ?s1 (index_while stt ?s1) [] us" ..
  then have "index_progress stt s (index_on_data stt chunk s) [chunk] us"
    by (simp add: index_progress_def index_on_data_def Let_def)
  then show ?thesis ..
qed

lemma index_progress_trans:
  "index_progress stt s s' bs us \<Longrightarrow> index_progress stt s' s'' bs' us' \<Longrightarrow>
   index_progress stt s s'' (bs @ bs') (us @ us')"
  unfolding index_progress_def
  by (simp add: transcripts_append failures_append)

lemma index_fold_progress:
  "length (currentBuffer s) < index_CHUNK_SIZE \<Longrightarrow>
   \<exists>us. index_progress stt s (fold (index_on_data stt) bs s) bs us"
proof (induction bs arbitrary: s)
  case Nil
  then have "index_progress stt s (fold (index_on_data stt) [] s) [] []"
    by (simp add: index_progress_def transcripts_def failures_def)
  then show ?case ..
next
  case (Cons b bs)
  from index_on_data_progress [of stt s b] obtain us
    where 1: "index_progress stt s (index_on_data stt b s) [b] us" ..
  then have "length (currentBuffer (index_on_data stt b s)) < index_CHUNK_SIZE"
    by (simp add: index_progress_def)
  from Cons.IH [OF this] obtain us'
    where 2: "index_progress stt (index_on_data stt b s)
                (fold (index_on_data stt) bs (index_on_data stt b s)) bs us'" ..
  from index_progress_trans [OF 1 2]
  have "index_progress stt s (fold (index_on_data stt) (b # bs) s) (b # bs) (us @ us')"
    by simp
  then show ?case ..
qed

lemma server1_while_stop:
  "length (currentBuffer s) < server1_CHUNK_SIZE \<Longrightarrow> server1_while stt s = s"
  by (subst server1_while.simps) simp

lemma server1_while_step:
  "server1_CHUNK_SIZE \<le> length (currentBuffer s) \<Longrightarrow>
   server1_while stt s =
     server1_while stt
       (case stt (take server1_CHUNK_SIZE (currentBuffer s)) of
          Inr intermediateText \<Rightarrow>
            if trim intermediateText \<noteq> []
            then s\<lparr>currentBuffer := drop server1_CHUNK_SIZE (currentBuffer s),
                   stt_calls := stt_calls s @ [UnitCall (take server1_CHUNK_SIZE (currentBuffer s))],
                   transcriptionFile :=
                     transcriptionFile s @ [ChunkLine (chunkCount s + 1) intermediateText],
                   chunkCount := chunkCount s + 1\<rparr>
            else s\<lparr>currentBuffer := drop server1_CHUNK_SIZE (currentBuffer s),
                   stt_calls := stt_calls s @ [UnitCall (take server1_CHUNK_SIZE (currentBuffer s))]\<rparr>
        | Inl err \<Rightarrow>
            s\<lparr>currentBuffer := drop server1_CHUNK_SIZE (currentBuffer s),
              stt_calls := stt_calls s @ [UnitCall (take server1_CHUNK_SIZE (currentBuffer s))],
              transcriptionFile :=
                transcriptionFile s @ [ErrorProcessingChunkLine (message err)]\<rparr>)"
  by (subst server1_while.simps) (simp add: Let_def split: sum.splits)

lemma server1_while_progress: "\<exists>us. server1_progress stt s (server1_while stt s) [] us"
proof (induction "length (currentBuffer s)" arbitrary: s rule: less_induct)
  case less
  show ?case
  proof (cases "length (currentBuffer s) < server1_CHUNK_SIZE")
    case True
    then have "server1_progress stt s (server1_while stt s) [] []"
      by (simp add: server1_while_stop server1_progress_def transcripts_def failures_def)
    then show ?thesis ..
  next
    case False
    let ?u = "take server1_CHUNK_SIZE (currentBuffer s)"
    let ?s1 = "s\<lparr>currentBuffer := drop server1_CHUNK_SIZE (currentBuffer s),
                  stt_calls := stt_calls s @ [UnitCall ?u]\<rparr>"
    let ?s2 = "case stt ?u of
          Inr intermediateText \<Rightarrow>
            if trim intermediateText \<noteq> []
            then ?s1\<lparr>transcriptionFile :=
                        transcriptionFile s @ [ChunkLine (chunkCount s + 1) intermediateText],
                      chunkCount := chunkCount s + 1\<rparr>
            else ?s1
        | Inl err \<Rightarrow>
            ?s1\<lparr>transcriptionFile :=
                   transcriptionFile s @ [ErrorProcessingChunkLine (message err)]\<rparr>"
    from False have ge: "server1_CHUNK_SIZE \<le> length (currentBuffer s)" by simp
    have w: "server1_while stt s = server1_while stt ?s2"
      by (subst server1_while_step [OF ge]) (simp split: sum.splits)
    have buf: "currentBuffer ?s2 = drop server1_CHUNK_SIZE (currentBuffer s)"
      by (simp split: sum.splits)
    have "length (currentBuffer ?s2) < length (currentBuffer s)"
      using ge unfolding buf by (simp add: server1_CHUNK_SIZE_def)
    from less [OF this] obtain us
      where IH: "server1_progress stt ?s2 (server1_while stt ?s2) [] us"
      by blast
    have lu: "length ?u = server1_CHUNK_SIZE"
      using ge by simp
    have "server1_progress stt s (server1_while stt s) [] (?u # us)"
      using IH lu unfolding w server1_progress_def
      by (simp add: transcripts_def failures_def server1_recorded_def server1_markers_def
          blank_def split: sum.splits)
    then show ?thesis ..
  qed
qed

lemma server1_on_data_progress:
  "\<exists>us. server1_progress stt s (server1_on_data stt chunk s) [chunk] us"
proof -
  let ?s1 = "s\<lparr>chunks := chunks s @ [chunk], currentBuffer := currentBuffer s @ chunk\<rparr>"
  from server1_while_progress [of stt ?s1] obtain us
    where "server1_progress stt ?s1 (server1_while stt ?s1) [] us" ..
  then have "server1_progress stt s (server1_on_data stt chunk s) [chunk] us"
    by (simp add: server1_progress_def server1_on_data_def Let_def)
  then show ?thesis ..
qed

lemma server1_progress_trans:
  "server1_progress stt s s' bs us \<Longrightarrow> server1_progress stt s' s'' bs' us' \<Longrightarrow>
   server1_progress stt s s'' (bs @ bs') (us @ us')"
  unfolding server1_progress_def
  by (simp add: transcripts_append failures_append)

lemma server1_fold_progress:
  "length (currentBuffer s) < server1_CHUNK_SIZE \<Longrightarrow>
   \<exists>us. server1_progress stt s (fold (server1_on_data stt) bs s) bs us"
proof (induction bs arbitrary: s)
  case Nil
  then have "server1_progress stt s (fold (server1_on_data stt) [] s) [] []"
    by (simp add: server1_progress_def transcripts_def failures_def)
  then show ?case ..
next
  case (Cons b bs)
  from server1_on_data_progress [of stt s b] obtain us
    where 1: "server1_progress stt s (server1_on_data stt b s) [b] us" ..
  then have "length (currentBuffer (server1_on_data stt b s)) < server1_CHUNK_SIZE"
    by (simp add: server1_progress_def)
  from Cons.IH [OF this] obtain us'
    where 2: "server1_progress stt (server1_on_data stt b s)
                (fold (server1_on_data stt) bs (server1_on_data stt b s)) bs us'" ..
  from server1_progress_trans [OF 1 2]
  have "server1_progress stt s (fold (server1_on_data stt) (b # bs) s) (b # bs) (us @ us')"
    by simp
  then show ?case ..
qed

section \<open>The state when the source has delivered its last chunk\<close>

lemma index_fed:
  "\<exists>us. index_progress stt index_initial (fold (index_on_data stt) bs index_initial) bs us"
  by (rule index_fold_progress) (simp add: index_initial_def index_CHUNK_SIZE_def)

lemma server1_fed:
  "\<exists>us. server1_progress stt server1_initial (fold (server1_on_data stt) bs server1_initial) bs us"
  by (rule server1_fold_progress) (simp add: server1_initial_def server1_CHUNK_SIZE_def)

lemma index_initial_fields:
  "chunks index_initial = []" "currentBuffer index_initial = []" "stt_calls index_initial = []"
  "console index_initial = [Starting]"
  by (simp_all add: index_initial_def)

lemma server1_initial_fields:
  "chunks server1_initial = []" "currentBuffer server1_initial = []"
  "stt_calls server1_initial = []" "transcriptionFile server1_initial = [StartingLines]"
  "chunkCount server1_initial = 0" "performanceLog server1_initial = []"
  by (simp_all add: server1_initial_def)

section \<open>The whole run\<close>

text \<open>
  Every run of index.js, told by the slices \<open>us\<close> that the loop cut and the
  remainder \<open>r\<close> left in the buffer when the source stopped.
\<close>

lemma index_run:
  obtains (run) us r where
    "list_all (\<lambda>u. length u = index_CHUNK_SIZE) us" "length r < index_CHUNK_SIZE"
    "concat us @ r = concat (data src)"
    "currentBuffer (snd (index_transcribeAudio stt src)) = r"
    "units (stt_calls (snd (index_transcribeAudio stt src))) = us"
    "remainders (stt_calls (snd (index_transcribeAudio stt src))) =
       (if ending src = End \<and> r \<noteq> [] then [r] else [])"
    "stt_calls (snd (index_transcribeAudio stt src)) =
       map UnitCall us @
       (case ending src of
          SourceError e \<Rightarrow> []
        | End \<Rightarrow>
            if r = [] then [CompleteCall (concat (data src))]
            else RemainderCall r #
                 (case stt r of Inl e \<Rightarrow> [] | Inr t \<Rightarrow> [CompleteCall (concat (data src))]))"
    "fst (index_transcribeAudio stt src) =
       (case ending src of
          SourceError e \<Rightarrow> Rejected e
        | End \<Rightarrow>
            if r = [] then (case stt (concat (data src)) of Inr t \<Rightarrow> Resolved t | Inl e \<Rightarrow> Rejected e)
            else (case stt r of
                    Inl e \<Rightarrow> Uncaught e
                  | Inr t' \<Rightarrow>
                      (case stt (concat (data src)) of Inr t \<Rightarrow> Resolved t | Inl e \<Rightarrow> Rejected e)))"
    "index_recorded (console (snd (index_transcribeAudio stt src))) =
       filter (\<lambda>t. \<not> blank t) (transcripts stt us) @
       (case ending src of SourceError e \<Rightarrow> [] | End \<Rightarrow> if r = [] then [] else transcripts stt [r])"
    "index_markers (console (snd (index_transcribeAudio stt src))) = failures stt us"
proof -
  let ?s = "fold (index_on_data stt) (data src) index_initial"
  from index_fed [of stt "data src"] obtain us
    where "index_progress stt index_initial ?s (data src) us" ..
  then have p: "chunks ?s = data src" "concat us @ currentBuffer ?s = concat (data src)"
    "stt_calls ?s = map UnitCall us" "list_all (\<lambda>u. length u = index_CHUNK_SIZE) us"
    "length (currentBuffer ?s) < index_CHUNK_SIZE"
    "index_recorded (console ?s) = filter (\<lambda>t. \<not> blank t) (transcripts stt us)"
    "index_markers (console ?s) = failures stt us"
    by (simp_all add: index_progress_def index_initial_fields index_recorded_def
        index_markers_def)
  note defs = index_transcribeAudio_def index_on_end_def index_complete_def Let_def
  have calls: "stt_calls (snd (index_transcribeAudio stt src)) =
       map UnitCall us @
       (case ending src of
          SourceError e \<Rightarrow> []
        | End \<Rightarrow>
            if currentBuffer ?s = [] then [CompleteCall (concat (data src))]
            else RemainderCall (currentBuffer ?s) #
                 (case stt (currentBuffer ?s) of
                    Inl e \<Rightarrow> [] | Inr t \<Rightarrow> [CompleteCall (concat (data src))]))"
    using p by (simp add: defs split: source_end.splits sum.splits)
  show thesis
  proof (rule that [of us "currentBuffer ?s"])
    show "list_all (\<lambda>u. length u = index_CHUNK_SIZE) us" by (rule p)
    show "length (currentBuffer ?s) < index_CHUNK_SIZE" by (rule p)
    show "concat us @ currentBuffer ?s = concat (data src)" by (rule p)
    show "currentBuffer (snd (index_transcribeAudio stt src)) = currentBuffer ?s"
      by (simp add: defs split: source_end.splits sum.splits)
    show "units (stt_calls (snd (index_transcribeAudio stt src))) = us"
      unfolding calls
      by (cases "ending src"; cases "stt (currentBuffer ?s)")
         (simp_all add: units_append calls_of_units calls_of_single)
    show "remainders (stt_calls (snd (index_transcribeAudio stt src))) =
        (if ending src = End \<and> currentBuffer ?s \<noteq> [] then [currentBuffer ?s] else [])"
      unfolding calls
      by (cases "ending src"; cases "stt (currentBuffer ?s)")
         (simp_all add: remainders_append calls_of_units calls_of_single)
    show "stt_calls (snd (index_transcribeAudio stt src)) =
       map UnitCall us @
       (case ending src of
          SourceError e \<Rightarrow> []
        | End \<Rightarrow>
            if currentBuffer ?s = [] then [CompleteCall (concat (data src))]
            else RemainderCall (currentBuffer ?s) #
                 (case stt (currentBuffer ?s) of
                    Inl e \<Rightarrow> [] | Inr t \<Rightarrow> [CompleteCall (concat (data src))]))"
      by (rule calls)
    show "fst (index_transcribeAudio stt src) =
       (case ending src of
          SourceError e \<Rightarrow> Rejected e
        | End \<Rightarrow>
            if currentBuffer ?s = []
            then (case stt (concat (data src)) of Inr t \<Rightarrow> Resolved t | Inl e \<Rightarrow> Rejected e)
            else (case stt (currentBuffer ?s) of
                    Inl e \<Rightarrow> Uncaught e
                  | Inr t' \<Rightarrow>
                      (case stt (concat (data src)) of Inr t \<Rightarrow> Resolved t | Inl e \<Rightarrow> Rejected e)))"
      using p by (simp add: defs split: source_end.splits sum.splits)
    show "index_recorded (console (snd (index_transcribeAudio stt src))) =
       filter (\<lambda>t. \<not> blank t) (transcripts stt us) @
       (case ending src of
          SourceError e \<Rightarrow> []
        | End \<Rightarrow> if currentBuffer ?s = [] then [] else transcripts stt [currentBuffer ?s])"
      using p
      by (simp add: defs index_recorded_append transcripts_def split: source_end.splits sum.splits)
         (simp add: index_recorded_def)
    show "index_markers (console (snd (index_transcribeAudio stt src))) = failures stt us"
      using p
      by (simp add: defs index_markers_append split: source_end.splits sum.splits)
         (simp add: index_markers_def)
  qed
qed

text \<open>The same for server1.js, with the count of recorded chunks.\<close>

lemma server1_run:
  obtains (run) us r where
    "list_all (\<lambda>u. length u = server1_CHUNK_SIZE) us" "length r < server1_CHUNK_SIZE"
    "concat us @ r = concat (data src)"
    "currentBuffer (snd (server1_transcribeAudio stt src referenceText)) = r"
    "units (stt_calls (snd (server1_transcribeAudio stt src referenceText))) = us"
    "remainders (stt_calls (snd (server1_transcribeAudio stt src referenceText))) =
       (if ending src = End \<and> r \<noteq> [] then [r] else [])"
    "stt_calls (snd (server1_transcribeAudio stt src referenceText)) =
       map UnitCall us @
       (case ending src of
          SourceError e \<Rightarrow> []
        | End \<Rightarrow>
            if r = [] then [CompleteCall (concat (data src))]
            else RemainderCall r #
                 (case stt r of Inl e \<Rightarrow> [] | Inr t \<Rightarrow> [CompleteCall (concat (data src))]))"
    "fst (server1_transcribeAudio stt src referenceText) =
       (case ending src of
          SourceError e \<Rightarrow> Rejected e
        | End \<Rightarrow>
            if r = [] then (case stt (concat (data src)) of Inr t \<Rightarrow> Resolved t | Inl e \<Rightarrow> Rejected e)
            else (case stt r of
                    Inl e \<Rightarrow> Uncaught e
                  | Inr t' \<Rightarrow>
                      (case stt (concat (data src)) of Inr t \<Rightarrow> Resolved t | Inl e \<Rightarrow> Rejected e)))"
    "server1_recorded (transcriptionFile (snd (server1_transcribeAudio stt src referenceText))) =
       filter (\<lambda>t. \<not> blank t) (transcripts stt us) @
       (case ending src of
          SourceError e \<Rightarrow> []
        | End \<Rightarrow> if r = [] then [] else filter (\<lambda>t. \<not> blank t) (transcripts stt [r]))"
    "server1_markers (transcriptionFile (snd (server1_transcribeAudio stt src referenceText))) =
       failures stt us"
    "chunkCount (snd (server1_transcribeAudio stt src referenceText)) =
       length (server1_recorded
         (transcriptionFile (snd (server1_transcribeAudio stt src referenceText))))"
proof -
  let ?s = "fold (server1_on_data stt) (data src) server1_initial"
  let ?R = "server1_transcribeAudio stt src referenceText"
  from server1_fed [of stt "data src"] obtain us
    where "server1_progress stt server1_initial ?s (data src) us" ..
  then have p: "chunks ?s = data src" "concat us @ currentBuffer ?s = concat (data src)"
    "stt_calls ?s = map UnitCall us" "list_all (\<lambda>u. length u = server1_CHUNK_SIZE) us"
    "length (currentBuffer ?s) < server1_CHUNK_SIZE"
    "server1_recorded (transcriptionFile ?s) = filter (\<lambda>t. \<not> blank t) (transcripts stt us)"
    "server1_markers (transcriptionFile ?s) = failures stt us"
    "chunkCount ?s = length (filter (\<lambda>t. \<not> blank t) (transcripts stt us))"
    by (simp_all add: server1_progress_def server1_initial_fields server1_recorded_def
        server1_markers_def)
  note defs = server1_transcribeAudio_def server1_on_end_def server1_complete_def
    server1_catch_def Let_def
  note splits = source_end.splits sum.splits option.splits
  have calls: "stt_calls (snd ?R) =
       map UnitCall us @
       (case ending src of
          SourceError e \<Rightarrow> []
        | End \<Rightarrow>
            if currentBuffer ?s = [] then [CompleteCall (concat (data src))]
            else RemainderCall (currentBuffer ?s) #
                 (case stt (currentBuffer ?s) of
                    Inl e \<Rightarrow> [] | Inr t \<Rightarrow> [CompleteCall (concat (data src))]))"
    using p by (simp add: defs split: splits)
  have recorded: "server1_recorded (transcriptionFile (snd ?R)) =
       filter (\<lambda>t. \<not> blank t) (transcripts stt us) @
       (case ending src of
          SourceError e \<Rightarrow> []
        | End \<Rightarrow> if currentBuffer ?s = [] then []
                 else filter (\<lambda>t. \<not> blank t) (transcripts stt [currentBuffer ?s]))"
    using p
    by (simp add: defs server1_recorded_append transcripts_def blank_def split: splits)
       (simp add: server1_recorded_def)
  have count: "chunkCount (snd ?R) =
       length (filter (\<lambda>t. \<not> blank t) (transcripts stt us)) +
       (case ending src of
          SourceError e \<Rightarrow> 0
        | End \<Rightarrow> if currentBuffer ?s = [] then 0
                 else length (filter (\<lambda>t. \<not> blank t) (transcripts stt [currentBuffer ?s])))"
    using p by (simp add: defs transcripts_def blank_def split: splits)
  show thesis
  proof (rule that [of us "currentBuffer ?s"])
    show "list_all (\<lambda>u. length u = server1_CHUNK_SIZE) us" by (rule p)
    show "length (currentBuffer ?s) < server1_CHUNK_SIZE" by (rule p)
    show "concat us @ currentBuffer ?s = concat (data src)" by (rule p)
    show "currentBuffer (snd ?R) = currentBuffer ?s"
      by (simp add: defs split: splits)
    show "units (stt_calls (snd ?R)) = us"
      unfolding calls
      by (cases "ending src"; cases "stt (currentBuffer ?s)")
         (simp_all add: units_append calls_of_units calls_of_single)
    show "remainders (stt_calls (snd ?R)) =
        (if ending src = End \<and> currentBuffer ?s \<noteq> [] then [currentBuffer ?s] else [])"
      unfolding calls
      by (cases "ending src"; cases "stt (currentBuffer ?s)")
         (simp_all add: remainders_append calls_of_units calls_of_single)
    show "stt_calls (snd ?R) =
       map UnitCall us @
       (case ending src of
          SourceError e \<Rightarrow> []
        | End \<Rightarrow>
            if currentBuffer ?s = [] then [CompleteCall (concat (data src))]
            else RemainderCall (currentBuffer ?s) #
                 (case stt (currentBuffer ?s) of
                    Inl e \<Rightarrow> [] | Inr t \<Rightarrow> [CompleteCall (concat (data src))]))"
      by (rule calls)
    show "fst ?R =
       (case ending src of
          SourceError e \<Rightarrow> Rejected e
        | End \<Rightarrow>
            if currentBuffer ?s = []
            then (case stt (concat (data src)) of Inr t \<Rightarrow> Resolved t | Inl e \<Rightarrow> Rejected e)
            else (case stt (currentBuffer ?s) of
                    Inl e \<Rightarrow> Uncaught e
                  | Inr t' \<Rightarrow>
                      (case stt (concat (data src)) of Inr t \<Rightarrow> Resolved t | Inl e \<Rightarrow> Rejected e)))"
      using p by (simp add: defs split: splits)
    show "server1_recorded (transcriptionFile (snd ?R)) =
       filter (\<lambda>t. \<not> blank t) (transcripts stt us) @
       (case ending src of
          SourceError e \<Rightarrow> []
        | End \<Rightarrow> if currentBuffer ?s = [] then []
                 else filter (\<lambda>t. \<not> blank t) (transcripts stt [currentBuffer ?s]))"
      by (rule recorded)
    show "server1_markers (transcriptionFile (snd ?R)) = failures stt us"
      using p
      by (simp add: defs server1_markers_append split: splits)
         (simp add: server1_markers_def)
    show "chunkCount (snd ?R) = length (server1_recorded (transcriptionFile (snd ?R)))"
      unfolding recorded count by (simp split: source_end.splits)
  qed
qed

section \<open>Three runs, evaluated\<close>

lemma blank_space: "trim '' '' = []"
  by (simp add: trim_def isWhiteSpace_def)

lemma index_sample_blank:
  "index_transcribeAudio (\<lambda>b. Inr '' '')
     \<lparr>data = [replicate 16000 0 @ [1], [2]], ending = End\<rparr> =
   (Resolved '' '',
    \<lparr>chunks = [replicate 16000 0 @ [1], [2]], currentBuffer = [1, 2],
     stt_calls = [UnitCall (replicate 16000 0), RemainderCall [1, 2],
                  CompleteCall (replicate 16000 0 @ [1, 2])],
     console = [Starting, FinalChunk '' '', CompleteTranscription '' '']\<rparr>)"
  by (simp add: index_transcribeAudio_def index_on_data_def index_while_step index_while_stop
      index_CHUNK_SIZE_def index_on_end_def index_complete_def index_initial_def Let_def
      blank_space)

lemma server1_sample_blank:
  "server1_transcribeAudio (\<lambda>b. Inr '' '')
     \<lparr>data = [replicate 32000 0 @ [1], [2]], ending = End\<rparr> None =
   (Resolved '' '',
    \<lparr>chunks = [replicate 32000 0 @ [1], [2]], currentBuffer = [1, 2],
     stt_calls = [UnitCall (replicate 32000 0), RemainderCall [1, 2],
                  CompleteCall (replicate 32000 0 @ [1, 2])],
     chunkCount = 0,
     transcriptionFile = [StartingLines, CompleteTranscriptionHeader,
                          CompleteTranscriptionText '' '', TranscriptionCompleted],
     performanceLog = []\<rparr>)"
  by (simp add: server1_transcribeAudio_def server1_on_data_def server1_while_step
      server1_while_stop server1_CHUNK_SIZE_def server1_on_end_def server1_complete_def
      server1_initial_def Let_def blank_space)

section \<open>Claims about the pipeline\<close>

text \<open>
  Claim C2. However the source splits the audio into chunks: after any number of
  \<open>data\<close> events, the slices handed to the engine so far, followed by the bytes
  still in \<open>currentBuffer\<close>, are the bytes delivered so far; and in a run whose
  source ends, the engine calls are the full slices in order, then the flushed
  remainder, then the complete buffer, and the slices followed by the remainder
  are the whole input, byte for byte. This holds for index.js and server1.js.
\<close>

theorem byte_conservation:
  "concat (units (stt_calls (fold (index_on_data stt) bs index_initial)))
     @ currentBuffer (fold (index_on_data stt) bs index_initial) = concat bs \<and>
   concat (units (stt_calls (fold (server1_on_data stt) bs server1_initial)))
     @ currentBuffer (fold (server1_on_data stt) bs server1_initial) = concat bs \<and>
   (ending src = End \<longrightarrow>
      (\<exists>us rs cs. stt_calls (snd (index_transcribeAudio stt src))
           = map UnitCall us @ map RemainderCall rs @ map CompleteCall cs \<and>
         concat (us @ rs) = concat (data src))) \<and>
   (ending src = End \<longrightarrow>
      (\<exists>us rs cs. stt_calls (snd (server1_transcribeAudio stt src referenceText))
           = map UnitCall us @ map RemainderCall rs @ map CompleteCall cs \<and>
         concat (us @ rs) = concat (data src)))"
proof (intro conjI impI)
  from index_fed [of stt bs] obtain us
    where "index_progress stt index_initial (fold (index_on_data stt) bs index_initial) bs us" ..
  then show "concat (units (stt_calls (fold (index_on_data stt) bs index_initial)))
     @ currentBuffer (fold (index_on_data stt) bs index_initial) = concat bs"
    by (simp add: index_progress_def index_initial_fields calls_of_units)
next
  from server1_fed [of stt bs] obtain us
    where "server1_progress stt server1_initial (fold (server1_on_data stt) bs server1_initial) bs us" ..
  then show "concat (units (stt_calls (fold (server1_on_data stt) bs server1_initial)))
     @ currentBuffer (fold (server1_on_data stt) bs server1_initial) = concat bs"
    by (simp add: server1_progress_def server1_initial_fields calls_of_units)
next
  assume e: "ending src = End"
  from index_run [where stt = stt and src = src]
  show "\<exists>us rs cs. stt_calls (snd (index_transcribeAudio stt src))
           = map UnitCall us @ map RemainderCall rs @ map CompleteCall cs \<and>
         concat (us @ rs) = concat (data src)"
  proof cases
    case (run us r)
    let ?rs = "if r = [] then [] else [r]"
    let ?cs = "if r = [] then [concat (data src)]
               else (case stt r of Inl e \<Rightarrow> [] | Inr t \<Rightarrow> [concat (data src)])"
    have "stt_calls (snd (index_transcribeAudio stt src))
             = map UnitCall us @ map RemainderCall ?rs @ map CompleteCall ?cs \<and>
           concat (us @ ?rs) = concat (data src)"
      using run(3,7) e by (auto split: sum.splits)
    then show ?thesis by blast
  qed
next
  assume e: "ending src = End"
  from server1_run [where stt = stt and src = src and referenceText = referenceText]
  show "\<exists>us rs cs. stt_calls (snd (server1_transcribeAudio stt src referenceText))
           = map UnitCall us @ map RemainderCall rs @ map CompleteCall cs \<and>
         concat (us @ rs) = concat (data src)"
  proof cases
    case (run us r)
    let ?rs = "if r = [] then [] else [r]"
    let ?cs = "if r = [] then [concat (data src)]
               else (case stt r of Inl e \<Rightarrow> [] | Inr t \<Rightarrow> [concat (data src)])"
    have "stt_calls (snd (server1_transcribeAudio stt src referenceText))
             = map UnitCall us @ map RemainderCall ?rs @ map CompleteCall ?cs \<and>
           concat (us @ ?rs) = concat (data src)"
      using run(3,7) e by (auto split: sum.splits)
    then show ?thesis by blast
  qed
qed

theorem byte_conservation_witness:
  "ending \<lparr>data = [replicate 16000 0 @ [1], [2]], ending = End\<rparr> = End \<and>
   (\<exists>us rs cs.
      stt_calls (snd (index_transcribeAudio (\<lambda>b. Inr '' '')
                        \<lparr>data = [replicate 16000 0 @ [1], [2]], ending = End\<rparr>))
        = map UnitCall us @ map RemainderCall rs @ map CompleteCall cs \<and>
      concat (us @ rs) = replicate 16000 0 @ [1, 2]) \<and>
   (\<exists>us rs cs.
      stt_calls (snd (server1_transcribeAudio (\<lambda>b. Inr '' '')
                        \<lparr>data = [replicate 16000 0 @ [1], [2]], ending = End\<rparr> None))
        = map UnitCall us @ map RemainderCall rs @ map CompleteCall cs \<and>
      concat (us @ rs) = replicate 16000 0 @ [1, 2])"
  using byte_conservation [of "\<lambda>b. Inr '' ''" "[]"
      "\<lparr>data = [replicate 16000 0 @ [1], [2]], ending = End\<rparr>" None]
  by simp

text \<open>
  Claim C6. In index.js every slice that the \<open>while\<close> loop hands to the engine has
  exactly \<open>CHUNK_SIZE\<close> bytes, in a whole run and in a single \<open>data\<close> event from any
  state; after each \<open>data\<close> event the buffer holds fewer than \<open>CHUNK_SIZE\<close> bytes;
  and the remainder handed to the engine when the source ends is the buffer, with
  more than zero and fewer than \<open>CHUNK_SIZE\<close> bytes: an empty buffer is not
  handed over at all.
\<close>

theorem unit_sizing:
  "(\<forall>u \<in> set (units (stt_calls (snd (index_transcribeAudio stt src)))).
      length u = index_CHUNK_SIZE) \<and>
   (\<exists>us. stt_calls (index_on_data stt chunk s) = stt_calls s @ map UnitCall us \<and>
      (\<forall>u \<in> set us. length u = index_CHUNK_SIZE)) \<and>
   length (currentBuffer (index_on_data stt chunk s)) < index_CHUNK_SIZE \<and>
   length (currentBuffer (snd (index_transcribeAudio stt src))) < index_CHUNK_SIZE \<and>
   remainders (stt_calls (snd (index_transcribeAudio stt src))) =
     (if ending src = End \<and> currentBuffer (snd (index_transcribeAudio stt src)) \<noteq> []
      then [currentBuffer (snd (index_transcribeAudio stt src))] else []) \<and>
   (\<forall>r \<in> set (remainders (stt_calls (snd (index_transcribeAudio stt src)))).
      0 < length r \<and> length r < index_CHUNK_SIZE)"
proof -
  from index_on_data_progress [of stt s chunk] obtain us
    where "index_progress stt s (index_on_data stt chunk s) [chunk] us" ..
  then have append:
    "(\<exists>us. stt_calls (index_on_data stt chunk s) = stt_calls s @ map UnitCall us \<and>
        (\<forall>u \<in> set us. length u = index_CHUNK_SIZE)) \<and>
     length (currentBuffer (index_on_data stt chunk s)) < index_CHUNK_SIZE"
    by (auto simp: index_progress_def list_all_iff)
  from index_run [where stt = stt and src = src] show ?thesis
  proof cases
    case (run us r)
    from run(1,2,4,5,6) append show ?thesis
      by (simp add: list_all_iff)
  qed
qed

theorem unit_sizing_witness:
  "replicate 16000 0 \<in> set (units (stt_calls (snd (index_transcribeAudio (\<lambda>b. Inr '' '')
      \<lparr>data = [replicate 16000 0 @ [1], [2]], ending = End\<rparr>)))) \<and>
   length (replicate 16000 (0 :: byte)) = index_CHUNK_SIZE \<and>
   [1, 2] \<in> set (remainders (stt_calls (snd (index_transcribeAudio (\<lambda>b. Inr '' '')
      \<lparr>data = [replicate 16000 0 @ [1], [2]], ending = End\<rparr>)))) \<and>
   0 < length [1, 2 :: byte] \<and> length [1, 2 :: byte] < index_CHUNK_SIZE"
proof -
  let ?calls = "stt_calls (snd (index_transcribeAudio (\<lambda>b. Inr '' '')
      \<lparr>data = [replicate 16000 0 @ [1], [2]], ending = End\<rparr>))"
  have u: "replicate 16000 0 \<in> set (units ?calls)"
    and r: "[1, 2] \<in> set (remainders ?calls)"
    by (simp_all add: index_sample_blank calls_of_single)
  from unit_sizing [of "\<lambda>b. Inr '' ''"
      "\<lparr>data = [replicate 16000 0 @ [1], [2]], ending = End\<rparr>"]
  have "\<forall>u \<in> set (units ?calls). length u = index_CHUNK_SIZE"
    and "\<forall>r \<in> set (remainders ?calls). 0 < length r \<and> length r < index_CHUNK_SIZE"
    by blast+
  with u r have "length (replicate 16000 (0 :: byte)) = index_CHUNK_SIZE"
    and "0 < length [1, 2 :: byte] \<and> length [1, 2 :: byte] < index_CHUNK_SIZE"
    by blast+
  with u r show ?thesis
    by blast
qed

text \<open>
  The call of the engine on the concatenation of all chunks received: when the
  source reports an error that call is not made; when the source ends, either
  the engine throws on the remainder and the call is not made, or it is the last
  call, made once, after every slice and the remainder, and the run resolves
  with its text or rejects with its error; and whenever a run resolves with a
  text, the source has ended and the text is what the engine returns on the
  concatenation of the chunks.
\<close>

lemma complete_buffer_call:
  "(ending src \<noteq> End \<longrightarrow>
      completes (stt_calls (snd (index_transcribeAudio stt src))) = [] \<and>
      completes (stt_calls (snd (server1_transcribeAudio stt src referenceText))) = []) \<and>
   (ending src = End \<longrightarrow>
      (\<exists>e r. fst (index_transcribeAudio stt src) = Uncaught e \<and>
         remainders (stt_calls (snd (index_transcribeAudio stt src))) = [r] \<and> stt r = Inl e \<and>
         completes (stt_calls (snd (index_transcribeAudio stt src))) = []) \<or>
      (\<exists>pre. stt_calls (snd (index_transcribeAudio stt src))
           = pre @ [CompleteCall (concat (data src))] \<and>
         completes pre = [] \<and>
         fst (index_transcribeAudio stt src) =
           (case stt (concat (data src)) of Inr t \<Rightarrow> Resolved t | Inl e \<Rightarrow> Rejected e))) \<and>
   (ending src = End \<longrightarrow>
      (\<exists>e r. fst (server1_transcribeAudio stt src referenceText) = Uncaught e \<and>
         remainders (stt_calls (snd (server1_transcribeAudio stt src referenceText))) = [r] \<and>
         stt r = Inl e \<and>
         completes (stt_calls (snd (server1_transcribeAudio stt src referenceText))) = []) \<or>
      (\<exists>pre. stt_calls (snd (server1_transcribeAudio stt src referenceText))
           = pre @ [CompleteCall (concat (data src))] \<and>
         completes pre = [] \<and>
         fst (server1_transcribeAudio stt src referenceText) =
           (case stt (concat (data src)) of Inr t \<Rightarrow> Resolved t | Inl e \<Rightarrow> Rejected e))) \<and>
   (\<forall>t. fst (index_transcribeAudio stt src) = Resolved t \<longrightarrow>
      ending src = End \<and> stt (concat (data src)) = Inr t \<and>
      completes (stt_calls (snd (index_transcribeAudio stt src))) = [concat (data src)]) \<and>
   (\<forall>t. fst (server1_transcribeAudio stt src referenceText) = Resolved t \<longrightarrow>
      ending src = End \<and> stt (concat (data src)) = Inr t \<and>
      completes (stt_calls (snd (server1_transcribeAudio stt src referenceText)))
        = [concat (data src)])"
proof -
  have index: "(ending src \<noteq> End \<longrightarrow>
      completes (stt_calls (snd (index_transcribeAudio stt src))) = []) \<and>
   (ending src = End \<longrightarrow>
      (\<exists>e r. fst (index_transcribeAudio stt src) = Uncaught e \<and>
         remainders (stt_calls (snd (index_transcribeAudio stt src))) = [r] \<and> stt r = Inl e \<and>
         completes (stt_calls (snd (index_transcribeAudio stt src))) = []) \<or>
      (\<exists>pre. stt_calls (snd (index_transcribeAudio stt src))
           = pre @ [CompleteCall (concat (data src))] \<and>
         completes pre = [] \<and>
         fst (index_transcribeAudio stt src) =
           (case stt (concat (data src)) of Inr t \<Rightarrow> Resolved t | Inl e \<Rightarrow> Rejected e))) \<and>
   (\<forall>t. fst (index_transcribeAudio stt src) = Resolved t \<longrightarrow>
      ending src = End \<and> stt (concat (data src)) = Inr t \<and>
      completes (stt_calls (snd (index_transcribeAudio stt src))) = [concat (data src)])"
    using index_run [where stt = stt and src = src]
  proof cases
    case (run us r)
    show ?thesis
    proof (cases "ending src")
      case (SourceError e)
      with run(7,8) show ?thesis
        by (simp add: completes_append calls_of_units calls_of_single)
    next
      case End
      show ?thesis
      proof (cases "r = []")
        case True
        with End run(7,8) have "stt_calls (snd (index_transcribeAudio stt src))
            = map UnitCall us @ [CompleteCall (concat (data src))]"
          and "fst (index_transcribeAudio stt src) =
            (case stt (concat (data src)) of Inr t \<Rightarrow> Resolved t | Inl e \<Rightarrow> Rejected e)"
          by simp_all
        with End show ?thesis
          by (auto simp: completes_append calls_of_units calls_of_single split: sum.splits)
      next
        case False
        show ?thesis
        proof (cases "stt r")
          case (Inl e)
          with False End run(6,7,8) show ?thesis
            by (simp add: completes_append calls_of_units calls_of_single)
        next
          case (Inr t')
          with False End run(7,8) have "stt_calls (snd (index_transcribeAudio stt src))
              = (map UnitCall us @ [RemainderCall r]) @ [CompleteCall (concat (data src))]"
            and "fst (index_transcribeAudio stt src) =
              (case stt (concat (data src)) of Inr t \<Rightarrow> Resolved t | Inl e \<Rightarrow> Rejected e)"
            by simp_all
          moreover have "completes (map UnitCall us @ [RemainderCall r]) = []"
            by (simp add: completes_append calls_of_units calls_of_single)
          ultimately show ?thesis
            using End
            by (auto simp: completes_append calls_of_units calls_of_single split: sum.splits)
        qed
      qed
    qed
  qed
  have server1: "(ending src \<noteq> End \<longrightarrow>
      completes (stt_calls (snd (server1_transcribeAudio stt src referenceText))) = []) \<and>
   (ending src = End \<longrightarrow>
      (\<exists>e r. fst (server1_transcribeAudio stt src referenceText) = Uncaught e \<and>
         remainders (stt_calls (snd (server1_transcribeAudio stt src referenceText))) = [r] \<and>
         stt r = Inl e \<and>
         completes (stt_calls (snd (server1_transcribeAudio stt src referenceText))) = []) \<or>
      (\<exists>pre. stt_calls (snd (server1_transcribeAudio stt src referenceText))
           = pre @ [CompleteCall (concat (data src))] \<and>
         completes pre = [] \<and>
         fst (server1_transcribeAudio stt src referenceText) =
           (case stt (concat (data src)) of Inr t \<Rightarrow> Resolved t | Inl e \<Rightarrow> Rejected e))) \<and>
   (\<forall>t. fst (server1_transcribeAudio stt src referenceText) = Resolved t \<longrightarrow>
      ending src = End \<and> stt (concat (data src)) = Inr t \<and>
      completes (stt_calls (snd (server1_transcribeAudio stt src referenceText)))
        = [concat (data src)])"
    using server1_run [where stt = stt and src = src and referenceText = referenceText]
  proof cases
    case (run us r)
    let ?R = "server1_transcribeAudio stt src referenceText"
    show ?thesis
    proof (cases "ending src")
      case (SourceError e)
      with run(7,8) show ?thesis
        by (simp add: completes_append calls_of_units calls_of_single)
    next
      case End
      show ?thesis
      proof (cases "r = []")
        case True
        with End run(7,8) have "stt_calls (snd ?R)
            = map UnitCall us @ [CompleteCall (concat (data src))]"
          and "fst ?R =
            (case stt (concat (data src)) of Inr t \<Rightarrow> Resolved t | Inl e \<Rightarrow> Rejected e)"
          by simp_all
        with End show ?thesis
          by (auto simp: completes_append calls_of_units calls_of_single split: sum.splits)
      next
        case False
        show ?thesis
        proof (cases "stt r")
          case (Inl e)
          with False End run(6,7,8) show ?thesis
            by (simp add: completes_append calls_of_units calls_of_single)
        next
          case (Inr t')
          with False End run(7,8) have "stt_calls (snd ?R)
              = (map UnitCall us @ [RemainderCall r]) @ [CompleteCall (concat (data src))]"
            and "fst ?R =
              (case stt (concat (data src)) of Inr t \<Rightarrow> Resolved t | Inl e \<Rightarrow> Rejected e)"
            by simp_all
          moreover have "completes (map UnitCall us @ [RemainderCall r]) = []"
            by (simp add: completes_append calls_of_units calls_of_single)
          ultimately show ?thesis
            using End
            by (auto simp: completes_append calls_of_units calls_of_single split: sum.splits)
        qed
      qed
    qed
  qed
  from index server1 show ?thesis
    by blast
qed

text \<open>
  Claim C9 at a failing input: an engine that throws on buffers shorter than four
  bytes, and a source that delivers one full slice, then three more bytes in two
  chunks, and ends. The run reaches the end of the source; the engine is called
  on the slice and on the remainder, and the call on the remainder throws outside
  any \<open>try\<close>. The error leaves the \<open>end\<close> listener, the promise is never settled,
  and the engine is never called on the concatenation of the chunks: no final
  transcript is produced. This is the defect shown for claim C7.
\<close>

theorem final_pass_missing:
  "index_transcribeAudio (\<lambda>b. if length b < 4 then Inl (Error ''no audio'') else Inr ''hello'')
     \<lparr>data = [replicate 16000 0, [1, 2], [3]], ending = End\<rparr> =
   (Uncaught (Error ''no audio''),
    \<lparr>chunks = [replicate 16000 0, [1, 2], [3]], currentBuffer = [1, 2, 3],
     stt_calls = [UnitCall (replicate 16000 0), RemainderCall [1, 2, 3]],
     console = [Starting, IntermediateResult ''hello'']\<rparr>) \<and>
   completes [UnitCall (replicate 16000 0), RemainderCall [1, 2, 3]] = [] \<and>
   server1_transcribeAudio (\<lambda>b. if length b < 4 then Inl (Error ''no audio'') else Inr ''hello'')
     \<lparr>data = [replicate 32000 0, [1, 2], [3]], ending = End\<rparr> None =
   (Uncaught (Error ''no audio''),
    \<lparr>chunks = [replicate 32000 0, [1, 2], [3]], currentBuffer = [1, 2, 3],
     stt_calls = [UnitCall (replicate 32000 0), RemainderCall [1, 2, 3]],
     chunkCount = 1,
     transcriptionFile = [StartingLines, ChunkLine 1 ''hello''],
     performanceLog = []\<rparr>) \<and>
   completes [UnitCall (replicate 32000 0), RemainderCall [1, 2, 3]] = []"
proof -
  have t: "trim ''hello'' \<noteq> []"
    by (simp add: trim_def isWhiteSpace_def)
  show ?thesis
    by (simp add: index_transcribeAudio_def index_on_data_def index_while_step index_while_stop
      index_CHUNK_SIZE_def index_on_end_def index_initial_def
      server1_transcribeAudio_def server1_on_data_def server1_while_step
      server1_while_stop server1_CHUNK_SIZE_def server1_on_end_def
      server1_initial_def Let_def t calls_of_single)
qed

text \<open>
  Claim C8, as the specification states it, fails. With an engine that answers
  one space to everything, a run over one full slice and a remainder records
  nothing for the slice: the console of index.js shows only the remainder and
  the complete text, and the transcription file of server1.js shows neither
  and counts no chunk.
\<close>

theorem blank_transcripts_counterexample:
  "blank '' '' \<and>
   transcripts (\<lambda>b. Inr '' '')
     (units (stt_calls (snd (index_transcribeAudio (\<lambda>b. Inr '' '')
        \<lparr>data = [replicate 16000 0 @ [1], [2]], ending = End\<rparr>)))) = ['' ''] \<and>
   console (snd (index_transcribeAudio (\<lambda>b. Inr '' '')
        \<lparr>data = [replicate 16000 0 @ [1], [2]], ending = End\<rparr>))
     = [Starting, FinalChunk '' '', CompleteTranscription '' ''] \<and>
   transcripts (\<lambda>b. Inr '' '')
     (units (stt_calls (snd (server1_transcribeAudio (\<lambda>b. Inr '' '')
        \<lparr>data = [replicate 32000 0 @ [1], [2]], ending = End\<rparr> None))) @
      remainders (stt_calls (snd (server1_transcribeAudio (\<lambda>b. Inr '' '')
        \<lparr>data = [replicate 32000 0 @ [1], [2]], ending = End\<rparr> None)))) = ['' '', '' ''] \<and>
   transcriptionFile (snd (server1_transcribeAudio (\<lambda>b. Inr '' '')
        \<lparr>data = [replicate 32000 0 @ [1], [2]], ending = End\<rparr> None))
     = [StartingLines, CompleteTranscriptionHeader, CompleteTranscriptionText '' '',
        TranscriptionCompleted] \<and>
   chunkCount (snd (server1_transcribeAudio (\<lambda>b. Inr '' '')
        \<lparr>data = [replicate 32000 0 @ [1], [2]], ending = End\<rparr> None)) = 0"
  by (simp add: index_sample_blank server1_sample_blank calls_of_single transcripts_def
      blank_def blank_space)

text \<open>
  Claim C8, amended. For every run, the intermediate texts on record, in order,
  are those that are not blank: in index.js the texts of the full slices that are
  not blank, followed by the text of the remainder whatever it is; in server1.js
  the texts of the slices and of the remainder that are not blank, and
  \<open>chunkCount\<close> is their number. A blank text, one of which \<open>trim\<close> leaves nothing
  (a tab, a no-break space and a space, say), leaves no trace. The error markers
  on record are the messages of the errors thrown on the slices, in order.
\<close>

theorem recorded_transcripts:
  "index_recorded (console (snd (index_transcribeAudio stt src))) =
     filter (\<lambda>t. \<not> blank t)
       (transcripts stt (units (stt_calls (snd (index_transcribeAudio stt src))))) @
     transcripts stt (remainders (stt_calls (snd (index_transcribeAudio stt src)))) \<and>
   index_markers (console (snd (index_transcribeAudio stt src))) =
     failures stt (units (stt_calls (snd (index_transcribeAudio stt src)))) \<and>
   server1_recorded (transcriptionFile (snd (server1_transcribeAudio stt src referenceText))) =
     filter (\<lambda>t. \<not> blank t)
       (transcripts stt
          (units (stt_calls (snd (server1_transcribeAudio stt src referenceText))) @
           remainders (stt_calls (snd (server1_transcribeAudio stt src referenceText))))) \<and>
   server1_markers (transcriptionFile (snd (server1_transcribeAudio stt src referenceText))) =
     failures stt (units (stt_calls (snd (server1_transcribeAudio stt src referenceText)))) \<and>
   chunkCount (snd (server1_transcribeAudio stt src referenceText)) =
     length (server1_recorded
       (transcriptionFile (snd (server1_transcribeAudio stt src referenceText)))) \<and>
   blank [CHR 0x09, CHR 0xA0, CHR '' ''] \<and> \<not> blank '' hello ''"
proof -
  have index: "index_recorded (console (snd (index_transcribeAudio stt src))) =
     filter (\<lambda>t. \<not> blank t)
       (transcripts stt (units (stt_calls (snd (index_transcribeAudio stt src))))) @
     transcripts stt (remainders (stt_calls (snd (index_transcribeAudio stt src)))) \<and>
   index_markers (console (snd (index_transcribeAudio stt src))) =
     failures stt (units (stt_calls (snd (index_transcribeAudio stt src))))"
    using index_run [where stt = stt and src = src]
  proof cases
    case (run us r)
    from run(5,6,9,10) show ?thesis
      by (simp add: transcripts_Nil split: source_end.splits)
  qed
  have server1: "server1_recorded (transcriptionFile (snd (server1_transcribeAudio stt src referenceText))) =
     filter (\<lambda>t. \<not> blank t)
       (transcripts stt
          (units (stt_calls (snd (server1_transcribeAudio stt src referenceText))) @
           remainders (stt_calls (snd (server1_transcribeAudio stt src referenceText))))) \<and>
   server1_markers (transcriptionFile (snd (server1_transcribeAudio stt src referenceText))) =
     failures stt (units (stt_calls (snd (server1_transcribeAudio stt src referenceText)))) \<and>
   chunkCount (snd (server1_transcribeAudio stt src referenceText)) =
     length (server1_recorded
       (transcriptionFile (snd (server1_transcribeAudio stt src referenceText))))"
    using server1_run [where stt = stt and src = src and referenceText = referenceText]
  proof cases
    case (run us r)
    from run(5,6,9,10,11) show ?thesis
      by (simp add: transcripts_append transcripts_Nil split: source_end.splits)
  qed
  have "blank [CHR 0x09, CHR 0xA0, CHR '' ''] \<and> \<not> blank '' hello ''"
    by (simp add: blank_def trim_def isWhiteSpace_def)
  with index server1 show ?thesis
    by blast
qed

text \<open>
  Claim C7 at the failing input: an engine that throws on buffers shorter than two
  bytes, and a source that delivers one full slice and one more byte. The slice
  is recognised and logged; the call on the remainder throws outside any \<open>try\<close>,
  the error leaves the \<open>end\<close> listener, no error marker is written and the
  complete buffer is never recognised.
\<close>

theorem remainder_error_escapes:
  "index_transcribeAudio (\<lambda>b. if length b < 2 then Inl (Error ''too short'') else Inr ''hello'')
     \<lparr>data = [replicate 16000 0 @ [1]], ending = End\<rparr> =
   (Uncaught (Error ''too short''),
    \<lparr>chunks = [replicate 16000 0 @ [1]], currentBuffer = [1],
     stt_calls = [UnitCall (replicate 16000 0), RemainderCall [1]],
     console = [Starting, IntermediateResult ''hello'']\<rparr>) \<and>
   server1_transcribeAudio (\<lambda>b. if length b < 2 then Inl (Error ''too short'') else Inr ''hello'')
     \<lparr>data = [replicate 32000 0 @ [1]], ending = End\<rparr> None =
   (Uncaught (Error ''too short''),
    \<lparr>chunks = [replicate 32000 0 @ [1]], currentBuffer = [1],
     stt_calls = [UnitCall (replicate 32000 0), RemainderCall [1]],
     chunkCount = 1,
     transcriptionFile = [StartingLines, ChunkLine 1 ''hello''],
     performanceLog = []\<rparr>)"
proof -
  have t: "trim ''hello'' \<noteq> []"
    by (simp add: trim_def isWhiteSpace_def)
  show ?thesis
    by (simp add: index_transcribeAudio_def index_on_data_def index_while_step index_while_stop
      index_CHUNK_SIZE_def index_on_end_def index_initial_def
      server1_transcribeAudio_def server1_on_data_def server1_while_step
      server1_while_stop server1_CHUNK_SIZE_def server1_on_end_def
      server1_initial_def Let_def t)
qed

end
